theory Spec2Isabelle
  imports Main "HOL-Library.Sublist" "HOL-Library.AList"
begin

section \<open>The parsed document tree\<close>

text \<open>
  \<^verbatim>\<open>services/docx.ts\<close> parses \<^verbatim>\<open>word/document.xml\<close> with fast-xml-parser, configured with
  \<^verbatim>\<open>preserveOrder: true\<close>, \<^verbatim>\<open>parseTagValue: false\<close> and \<^verbatim>\<open>trimValues: false\<close>. The value it
  returns is a tree of JavaScript arrays, objects and strings: an element is an object
  \<^verbatim>\<open>{ "w:p": [children], ":@": {attributes} }\<close>, a text node is \<^verbatim>\<open>{ "#text": "..." }\<close>, and with
  \<^verbatim>\<open>parseTagValue: false\<close> every scalar stays a string. The functions of the module take the
  tree as \<^verbatim>\<open>any\<close> and test its shape dynamically (\<^verbatim>\<open>Array.isArray\<close>, \<^verbatim>\<open>typeof\<close>, \<^verbatim>\<open>in\<close>), so the
  model keeps the three shapes apart and nothing else.

  An object is the list of its properties in the order of \<^verbatim>\<open>Object.keys\<close>. A JavaScript object
  has each key once; \<open>uniqueKeys\<close> states this for a whole tree.
\<close>

datatype xnode = Str string | Arr "xnode list" | Obj "(string \<times> xnode) list"

text \<open>
  The segments keep references to objects of the tree (\<^verbatim>\<open>wtNodes: any[]\<close>) and write-back
  assigns through them. The tree returned by the parser shares no object between two
  positions, so an object is identified by the access path that leads to it from
  \<^verbatim>\<open>documentXml\<close>: \<^verbatim>\<open>documentXml[0]["w:body"][1]\<close> is \<open>[Idx 0, Key ''w:body'', Idx 1]\<close>. A reference
  is such a path, the tree is the store the paths point into, and a write through a
  reference returns the updated tree.
\<close>

datatype step = Idx nat | Key string

type_synonym noderef = "step list"

text \<open>\<^verbatim>\<open>key in node\<close>, for an object.\<close>

definition hasKey :: "string \<Rightarrow> (string \<times> xnode) list \<Rightarrow> bool" where
  "hasKey k kvs = (k \<in> set (map fst kvs))"

text \<open>\<^verbatim>\<open>node[i]\<close> and \<^verbatim>\<open>node[key]\<close>; \<open>None\<close> is \<^verbatim>\<open>undefined\<close>.\<close>

fun getChild :: "xnode \<Rightarrow> step \<Rightarrow> xnode option" where
  "getChild (Arr items) (Idx i) = (if i < length items then Some (items ! i) else None)"
| "getChild (Obj kvs) (Key k) = map_of kvs k"
| "getChild _ _ = None"

text \<open>Following a reference from the root of the tree.\<close>

fun deref :: "xnode \<Rightarrow> noderef \<Rightarrow> xnode option" where
  "deref n [] = Some n"
| "deref n (s # p) = (case getChild n s of None \<Rightarrow> None | Some c \<Rightarrow> deref c p)"

text \<open>
  \<^verbatim>\<open>String(v)\<close>: a string is itself, an array is its elements joined by commas, any other
  object is \<^verbatim>\<open>[object Object]\<close>.
\<close>

fun joinComma :: "string list \<Rightarrow> string" where
  "joinComma [] = []"
| "joinComma [s] = s"
| "joinComma (s # t # ss) = s @ '','' @ joinComma (t # ss)"

fun jsString :: "xnode \<Rightarrow> string" where
  "jsString (Str s) = s"
| "jsString (Arr items) = joinComma (map jsString items)"
| "jsString (Obj kvs) = ''[object Object]''"

text \<open>
  \<^verbatim>\<open>String(wt["#text"])\<close> for a reference \<open>wt\<close>. A missing property reads as \<^verbatim>\<open>undefined\<close>, whose
  string is \<^verbatim>\<open>"undefined"\<close>; a path that leads nowhere has no counterpart in the program (a
  reference always points to a live object) and is given the same value.
\<close>

definition getText :: "xnode \<Rightarrow> noderef \<Rightarrow> string" where
  "getText doc wt =
     (case deref doc wt of
        None \<Rightarrow> ''undefined''
      | Some n \<Rightarrow> (case getChild n (Key ''#text'') of None \<Rightarrow> ''undefined'' | Some v \<Rightarrow> jsString v))"

text \<open>
  Replacing the object a reference points to. Only the first property of a key is followed,
  as \<open>map_of\<close> does in \<open>getChild\<close>.
\<close>

primrec updateAt :: "noderef \<Rightarrow> (xnode \<Rightarrow> xnode) \<Rightarrow> xnode \<Rightarrow> xnode" where
  "updateAt [] f n = f n"
| "updateAt (s # p) f n =
     (case (s, n) of
        (Idx i, Arr items) \<Rightarrow>
          (if i < length items then Arr (items[i := updateAt p f (items ! i)]) else n)
      | (Key k, Obj kvs) \<Rightarrow> Obj (AList.map_entry k (updateAt p f) kvs)
      | _ \<Rightarrow> n)"

text \<open>
  \<^verbatim>\<open>node[k] = v\<close>: an existing property keeps its place, a new one is appended. The module
  assigns only to objects that have the property (\<open>collectWtNodes\<close> keeps nothing else), so
  the other shapes are left as they are.
\<close>

definition setProp :: "string \<Rightarrow> xnode \<Rightarrow> xnode \<Rightarrow> xnode" where
  "setProp k v n = (case n of Obj kvs \<Rightarrow> Obj (AList.update k v kvs) | _ \<Rightarrow> n)"

text \<open>\<^verbatim>\<open>wt["#text"] = s\<close> through a reference.\<close>

definition setText :: "noderef \<Rightarrow> string \<Rightarrow> xnode \<Rightarrow> xnode" where
  "setText wt s doc = updateAt wt (setProp ''#text'' (Str s)) doc"

text \<open>
  \<^verbatim>\<open>String.prototype.trim\<close> removes white space and line terminators from both ends. A \<open>char\<close>
  is eight bits wide, so of the code points ECMAScript lists, those up to U+00FF are
  modelled: TAB, LF, VT, FF, CR, SPACE and NO-BREAK SPACE.
\<close>

definition isWhiteSpace :: "char \<Rightarrow> bool" where
  "isWhiteSpace c = ((of_char c :: nat) \<in> {9, 10, 11, 12, 13, 32, 160})"

definition trim :: "string \<Rightarrow> string" where
  "trim s = rev (dropWhile isWhiteSpace (rev (dropWhile isWhiteSpace s)))"

section \<open>Extraction of segments (\<^verbatim>\<open>services/docx.ts\<close>)\<close>

text \<open>
  \<^verbatim>\<open>interface DocxSegment { id: number; text: string; translated?: string; wtNodes: any[] }\<close>.
  An absent \<^verbatim>\<open>translated\<close> is \<open>None\<close>.
\<close>

record DocxSegment =
  id_seg :: nat
  text_seg :: string
  translated :: "string option"
  wtNodes :: "noderef list"

text \<open>\<^verbatim>\<open>typeof item === "object" && "#text" in item\<close>.\<close>

definition isTextItem :: "xnode \<Rightarrow> bool" where
  "isTextItem item = (case item of Obj kvs \<Rightarrow> hasKey ''#text'' kvs | _ \<Rightarrow> False)"

text \<open>
  The loop over the content of a \<^verbatim>\<open>w:t\<close> element: \<open>p\<close> is the path of the content array, \<open>i\<close>
  the index of the next item, \<open>wt\<close> the array being filled.
\<close>

fun pushTextItems :: "noderef \<Rightarrow> nat \<Rightarrow> xnode list \<Rightarrow> noderef list \<Rightarrow> noderef list" where
  "pushTextItems p i [] wt = wt"
| "pushTextItems p i (item # items) wt =
     pushTextItems p (Suc i) items (if isTextItem item then wt @ [p @ [Idx i]] else wt)"

text \<open>
  The test \<^verbatim>\<open>key !== ":@" && key !== "#text"\<close> of both traversals: the attributes and the text
  of a node are not descended into.
\<close>

definition isChildKey :: "string \<Rightarrow> bool" where
  "isChildKey key = (key \<noteq> '':@'' \<and> key \<noteq> ''#text'')"

text \<open>
  \<^verbatim>\<open>collectWtNodes(node, wtNodes)\<close>; \<open>p\<close> is the path of \<open>node\<close>. The two loops (over the items of
  an array, over the keys of an object) are the functions \<open>_items\<close> and \<open>_keys\<close>.
\<close>

fun collectWtNodes :: "noderef \<Rightarrow> xnode \<Rightarrow> noderef list \<Rightarrow> noderef list"
  and collectWtNodes_items :: "noderef \<Rightarrow> nat \<Rightarrow> xnode list \<Rightarrow> noderef list \<Rightarrow> noderef list"
  and collectWtNodes_keys :: "noderef \<Rightarrow> (string \<times> xnode) list \<Rightarrow> noderef list \<Rightarrow> noderef list"
where
  "collectWtNodes p (Arr items) wt = collectWtNodes_items p 0 items wt"
| "collectWtNodes p (Str s) wt = wt"
| "collectWtNodes p (Obj kvs) wt =
     (if hasKey ''w:t'' kvs then
        (case map_of kvs ''w:t'' of
           Some (Arr wtContent) \<Rightarrow> pushTextItems (p @ [Key ''w:t'']) 0 wtContent wt
         | _ \<Rightarrow> wt)
      else collectWtNodes_keys p kvs wt)"
| "collectWtNodes_items p i [] wt = wt"
| "collectWtNodes_items p i (item # items) wt =
     collectWtNodes_items p (Suc i) items (collectWtNodes (p @ [Idx i]) item wt)"
| "collectWtNodes_keys p [] wt = wt"
| "collectWtNodes_keys p ((key, v) # kvs) wt =
     collectWtNodes_keys p kvs
       (if isChildKey key then collectWtNodes (p @ [Key key]) v wt else wt)"

text \<open>
  \<^verbatim>\<open>extractSegmentsByParagraph(node, segments, counter)\<close>. The array \<open>segments\<close> and the object
  \<open>counter\<close> are the state, passed in and returned; \<open>doc\<close> is the whole tree, through which
  the text of a collected reference is read, and \<open>p\<close> the path of \<open>node\<close>.
\<close>

fun extractSegmentsByParagraph ::
    "xnode \<Rightarrow> noderef \<Rightarrow> xnode \<Rightarrow> DocxSegment list \<times> nat \<Rightarrow> DocxSegment list \<times> nat"
  and extractSegmentsByParagraph_items ::
    "xnode \<Rightarrow> noderef \<Rightarrow> nat \<Rightarrow> xnode list \<Rightarrow> DocxSegment list \<times> nat \<Rightarrow> DocxSegment list \<times> nat"
  and extractSegmentsByParagraph_keys ::
    "xnode \<Rightarrow> noderef \<Rightarrow> (string \<times> xnode) list \<Rightarrow> DocxSegment list \<times> nat
       \<Rightarrow> DocxSegment list \<times> nat"
where
  "extractSegmentsByParagraph doc p (Arr items) st = extractSegmentsByParagraph_items doc p 0 items st"
| "extractSegmentsByParagraph doc p (Str s) st = st"
| "extractSegmentsByParagraph doc p (Obj kvs) st =
     (if hasKey ''w:p'' kvs then
        (let wt = (case map_of kvs ''w:p'' of
                     None \<Rightarrow> []
                   | Some para \<Rightarrow> collectWtNodes (p @ [Key ''w:p'']) para [])
         in if length wt > 0 then
              (let mergedText = concat (map (getText doc) wt)
               in if trim mergedText \<noteq> [] then
                    (fst st @ [\<lparr>id_seg = snd st, text_seg = mergedText, translated = None,
                                wtNodes = wt\<rparr>],
                     snd st + 1)
                  else st)
            else st)
      else extractSegmentsByParagraph_keys doc p kvs st)"
| "extractSegmentsByParagraph_items doc p i [] st = st"
| "extractSegmentsByParagraph_items doc p i (item # items) st =
     extractSegmentsByParagraph_items doc p (Suc i) items
       (extractSegmentsByParagraph doc (p @ [Idx i]) item st)"
| "extractSegmentsByParagraph_keys doc p [] st = st"
| "extractSegmentsByParagraph_keys doc p ((key, v) # kvs) st =
     extractSegmentsByParagraph_keys doc p kvs
       (if isChildKey key then extractSegmentsByParagraph doc (p @ [Key key]) v st else st)"

section \<open>Write-back (\<^verbatim>\<open>services/docx.ts\<close>)\<close>

text \<open>
  \<^verbatim>\<open>distributeTranslation(segment)\<close>. The guard \<^verbatim>\<open>!segment.translated\<close> holds for an absent
  translation and for the empty string. The loop \<^verbatim>\<open>for (let i = 1; i < n; i++)\<close> clears the
  references after the first, in order.
\<close>

definition distributeTranslation :: "DocxSegment \<Rightarrow> xnode \<Rightarrow> xnode" where
  "distributeTranslation segment doc =
     (case translated segment of
        None \<Rightarrow> doc
      | Some tr \<Rightarrow>
          if tr = [] \<or> length (wtNodes segment) = 0 then doc
          else if length (wtNodes segment) = 1 then setText (wtNodes segment ! 0) tr doc
          else fold (\<lambda>wt. setText wt []) (drop 1 (wtNodes segment))
                 (setText (wtNodes segment ! 0) tr doc))"

text \<open>The loop \<^verbatim>\<open>for (const segment of parsed.segments) distributeTranslation(segment)\<close>.\<close>

definition applyTranslations :: "DocxSegment list \<Rightarrow> xnode \<Rightarrow> xnode" where
  "applyTranslations segs doc = fold distributeTranslation segs doc"

section \<open>The other revision of \<^verbatim>\<open>services/docx.ts\<close>: one segment per text node\<close>

text \<open>
  The repository also holds a revision of the module that extracts one segment for each
  text node with visible text. Its segments have no \<^verbatim>\<open>wtNodes\<close>; the field is left empty here.
  Its \<^verbatim>\<open>parseDocx\<close> makes the same outside calls in the same order and differs only in the
  traversal it runs on the parsed tree.

  \<^verbatim>\<open>extractSegments(node, segments, counter)\<close>: unlike the traversal by paragraph, this one
  goes on into the children of a \<^verbatim>\<open>w:t\<close> node after looking at its content.
\<close>

fun pushTextSegments :: "xnode list \<Rightarrow> DocxSegment list \<times> nat \<Rightarrow> DocxSegment list \<times> nat" where
  "pushTextSegments [] st = st"
| "pushTextSegments (item # items) st =
     pushTextSegments items
       (case item of
          Obj kvs \<Rightarrow>
            (case map_of kvs ''#text'' of
               None \<Rightarrow> st
             | Some v \<Rightarrow>
                 if trim (jsString v) \<noteq> [] then
                   (fst st @ [\<lparr>id_seg = snd st, text_seg = jsString v, translated = None,
                               wtNodes = []\<rparr>], snd st + 1)
                 else st)
        | _ \<Rightarrow> st)"

fun extractSegments :: "xnode \<Rightarrow> DocxSegment list \<times> nat \<Rightarrow> DocxSegment list \<times> nat"
  and extractSegments_items :: "xnode list \<Rightarrow> DocxSegment list \<times> nat \<Rightarrow> DocxSegment list \<times> nat"
  and extractSegments_keys ::
    "(string \<times> xnode) list \<Rightarrow> DocxSegment list \<times> nat \<Rightarrow> DocxSegment list \<times> nat"
where
  "extractSegments (Arr items) st = extractSegments_items items st"
| "extractSegments (Str s) st = st"
| "extractSegments (Obj kvs) st =
     extractSegments_keys kvs
       (if hasKey ''w:t'' kvs then
          (case map_of kvs ''w:t'' of
             Some (Arr wtContent) \<Rightarrow> pushTextSegments wtContent st
           | _ \<Rightarrow> st)
        else st)"
| "extractSegments_items [] st = st"
| "extractSegments_items (item # items) st = extractSegments_items items (extractSegments item st)"
| "extractSegments_keys [] st = st"
| "extractSegments_keys ((key, v) # kvs) st =
     extractSegments_keys kvs (if isChildKey key then extractSegments v st else st)"

section \<open>Parsing and writing the archive (\<^verbatim>\<open>services/docx.ts\<close>)\<close>

text \<open>
  A thrown value. The module and the libraries it calls throw \<^verbatim>\<open>Error\<close> objects, and the
  module has no error classes: a failure is told from another by where it is raised and by
  its message. \<open>JsError m\<close> is an object whose \<^verbatim>\<open>message\<close> is the string \<open>m\<close>. The language
  lets any value be thrown, and a promise be rejected with any value or with none:
  \<open>JsNullish\<close> is \<^verbatim>\<open>null\<close> or \<^verbatim>\<open>undefined\<close>, \<open>JsValue\<close> any other value without a \<^verbatim>\<open>message\<close>
  property (a string, a number, a plain object). An object whose \<^verbatim>\<open>message\<close> is not a string
  is not modelled.
\<close>

datatype exn = JsError string | JsNullish | JsValue

text \<open>
  The archive held by JSZip: the file entries by name, each with its data. \<^verbatim>\<open>zip.file(name)\<close>
  is the lookup, \<^verbatim>\<open>zip.file(name, data)\<close> adds or replaces one entry. Directory entries,
  dates and the compression of an entry carry no content and are not modelled.
\<close>

type_synonym zip = "string \<rightharpoonup> string"

record ParsedDocx =
  zip_docx :: zip
  documentXml :: xnode
  segments :: "DocxSegment list"

text \<open>An effect on the file system, in the order the program performs them.\<close>

datatype fsEffect =
    Mkdir string
  | WriteFile string string
  | CopyFile string string
  | Unlink string

text \<open>
  What the module calls outside itself: Node's \<^verbatim>\<open>fs\<close> and \<^verbatim>\<open>path\<close>, JSZip and fast-xml-parser.
  Each call that can throw or reject returns \<open>Inl\<close> of the error; \<open>fsThrows\<close> tells for
  a file-system effect whether it throws instead of taking place. \<open>asyncString\<close> is
  \<^verbatim>\<open>entry.async("string")\<close> on the stored data of an entry, \<open>xmlParse\<close> and \<open>xmlBuild\<close> are
  \<^verbatim>\<open>XMLParser.parse\<close> and \<^verbatim>\<open>XMLBuilder.build\<close> with the options of the module.
\<close>

record docx_env =
  readFileSync :: "string \<Rightarrow> exn + string"
  loadAsync :: "string \<Rightarrow> exn + zip"
  asyncString :: "string \<Rightarrow> exn + string"
  xmlParse :: "string \<Rightarrow> exn + xnode"
  xmlBuild :: "xnode \<Rightarrow> exn + string"
  generateAsync :: "zip \<Rightarrow> exn + string"
  path_dirname :: "string \<Rightarrow> string"
  existsSync :: "string \<Rightarrow> bool"
  fsThrows :: "fsEffect \<Rightarrow> exn option"

text \<open>\<^verbatim>\<open>parseDocx(filePath)\<close>; a rejected promise is \<open>Inl\<close>.\<close>

definition parseDocx :: "docx_env \<Rightarrow> string \<Rightarrow> exn + ParsedDocx" where
  "parseDocx env filePath =
     (case readFileSync env filePath of
        Inl e \<Rightarrow> Inl e
      | Inr buffer \<Rightarrow>
     (case loadAsync env buffer of
        Inl e \<Rightarrow> Inl e
      | Inr z \<Rightarrow>
     (case z ''word/document.xml'' of
        None \<Rightarrow> Inl (JsError ''Invalid DOCX: word/document.xml not found'')
      | Some documentXmlFile \<Rightarrow>
     (case asyncString env documentXmlFile of
        Inl e \<Rightarrow> Inl e
      | Inr documentXmlString \<Rightarrow>
     (case xmlParse env documentXmlString of
        Inl e \<Rightarrow> Inl e
      | Inr doc \<Rightarrow>
          Inr \<lparr>zip_docx = z, documentXml = doc,
               segments = fst (extractSegmentsByParagraph doc [] doc ([], 0))\<rparr>)))))"

text \<open>\<^verbatim>\<open>parseDocx(filePath)\<close> of the other revision.\<close>

definition parseDocx_flat :: "docx_env \<Rightarrow> string \<Rightarrow> exn + ParsedDocx" where
  "parseDocx_flat env filePath =
     (case readFileSync env filePath of
        Inl e \<Rightarrow> Inl e
      | Inr buffer \<Rightarrow>
     (case loadAsync env buffer of
        Inl e \<Rightarrow> Inl e
      | Inr z \<Rightarrow>
     (case z ''word/document.xml'' of
        None \<Rightarrow> Inl (JsError ''Invalid DOCX: word/document.xml not found'')
      | Some documentXmlFile \<Rightarrow>
     (case asyncString env documentXmlFile of
        Inl e \<Rightarrow> Inl e
      | Inr documentXmlString \<Rightarrow>
     (case xmlParse env documentXmlString of
        Inl e \<Rightarrow> Inl e
      | Inr doc \<Rightarrow>
          Inr \<lparr>zip_docx = z, documentXml = doc, segments = fst (extractSegments doc ([], 0))\<rparr>)))))"

text \<open>
  \<^verbatim>\<open>writeDocx(parsed, outputPath)\<close> mutates \<open>parsed\<close> (the tree, then the archive) and the file
  system, and may throw at each outside call; what it has done by then stays done. The
  result is \<open>parsed\<close> as it is left, the effects performed, and the error if one was thrown.
\<close>

record writeResult =
  parsedAfter :: ParsedDocx
  performed :: "fsEffect list"
  thrown :: "exn option"

definition writeDocx :: "docx_env \<Rightarrow> ParsedDocx \<Rightarrow> string \<Rightarrow> writeResult" where
  "writeDocx env parsed outputPath =
     (let parsed1 = parsed\<lparr>documentXml := applyTranslations (segments parsed) (documentXml parsed)\<rparr>
      in case xmlBuild env (documentXml parsed1) of
           Inl e \<Rightarrow> \<lparr>parsedAfter = parsed1, performed = [], thrown = Some e\<rparr>
         | Inr newXmlString \<Rightarrow>
     (let parsed2 = parsed1\<lparr>zip_docx := (zip_docx parsed1)(''word/document.xml'' \<mapsto> newXmlString)\<rparr>
      in case generateAsync env (zip_docx parsed2) of
           Inl e \<Rightarrow> \<lparr>parsedAfter = parsed2, performed = [], thrown = Some e\<rparr>
         | Inr outputBuffer \<Rightarrow>
     (let outputDir = path_dirname env outputPath;
          mk = (if \<not> existsSync env outputDir then [Mkdir outputDir] else [])
      in case (if \<not> existsSync env outputDir then fsThrows env (Mkdir outputDir) else None) of
           Some e \<Rightarrow> \<lparr>parsedAfter = parsed2, performed = [], thrown = Some e\<rparr>
         | None \<Rightarrow>
     (case fsThrows env (WriteFile outputPath outputBuffer) of
           Some e \<Rightarrow> \<lparr>parsedAfter = parsed2, performed = mk, thrown = Some e\<rparr>
         | None \<Rightarrow>
             \<lparr>parsedAfter = parsed2, performed = mk @ [WriteFile outputPath outputBuffer],
              thrown = None\<rparr>))))"

section \<open>The job (\<^verbatim>\<open>jobs.ts\<close>)\<close>

text \<open>
  \<^verbatim>\<open>server.ts\<close> imports \<^verbatim>\<open>JobState\<close>, \<^verbatim>\<open>createJob\<close>, \<^verbatim>\<open>updateJob\<close>, \<^verbatim>\<open>finishJob\<close> and \<^verbatim>\<open>cancelJob\<close> from
  \<^verbatim>\<open>jobs.ts\<close>, which is not among the sources. They are modelled from the specification and
  from the way \<^verbatim>\<open>server.ts\<close> uses them.
\<close>

text \<open>
  Modelled from the spec: the type of \<^verbatim>\<open>status\<close> in \<^verbatim>\<open>jobs.ts\<close>, with the states of a job as the
  specification lists them (\<^verbatim>\<open>parsing-docx\<close> is \<open>ParsingDocx\<close>).
\<close>

datatype JobStatus =
  Queued | Converting | ParsingDocx | Translating | Qa | Packing | Done | Error | Cancelled

text \<open>
  The step messages are string literals in Chinese; each constructor stands for one of
  them, in the order in which \<^verbatim>\<open>processJob\<close> uses them: converting the PDF, parsing the
  document, translating, packing the translated file, finished, processing failed.
\<close>

datatype StepMessage =
  MsgConverting | MsgParsing | MsgTranslating | MsgPacking | MsgDone | MsgFailed | MsgOther string

text \<open>
  Modelled from the spec: the record \<^verbatim>\<open>JobState\<close> of \<^verbatim>\<open>jobs.ts\<close>, with the fields the
  specification lists and \<^verbatim>\<open>server.ts\<close> reads or writes. The types of the usage and cost
  metrics are left open.
\<close>

record ('u, 'c) JobState =
  id_job :: string
  fileName :: string
  status :: JobStatus
  progress :: int
  stepMessage :: StepMessage
  errorMessage :: "string option"
  startedAt :: "int option"
  finishedAt :: "int option"
  cancelled :: bool
  totalSegments :: nat
  usage :: 'u
  costUSD :: 'c
  outputPath :: "string option"

text \<open>
  Modelled from the spec: \<^verbatim>\<open>createJob(id, fileName)\<close> of \<^verbatim>\<open>jobs.ts\<close>. A job is created in state
  \<^verbatim>\<open>queued\<close>, with no progress, not cancelled and with nothing recorded yet.
\<close>

definition createJob :: "string \<Rightarrow> string \<Rightarrow> 'u \<Rightarrow> 'c \<Rightarrow> ('u, 'c) JobState" where
  "createJob jobId name noUsage noCost =
     \<lparr>id_job = jobId, fileName = name, status = Queued, progress = 0, stepMessage = MsgOther [],
      errorMessage = None, startedAt = None, finishedAt = None, cancelled = False,
      totalSegments = 0, usage = noUsage, costUSD = noCost, outputPath = None\<rparr>"

text \<open>
  The object literal passed to \<^verbatim>\<open>updateJob\<close>: the fields that \<^verbatim>\<open>server.ts\<close> ever passes, each
  present or not.
\<close>

record JobPatch =
  p_status :: "JobStatus option"
  p_stepMessage :: "StepMessage option"
  p_progress :: "int option"
  p_errorMessage :: "string option"
  p_finishedAt :: "int option"

definition noPatch :: JobPatch where
  "noPatch = \<lparr>p_status = None, p_stepMessage = None, p_progress = None, p_errorMessage = None,
              p_finishedAt = None\<rparr>"

text \<open>
  Modelled from the spec: \<^verbatim>\<open>updateJob(job, patch)\<close> of \<^verbatim>\<open>jobs.ts\<close>, which assigns the fields of
  the patch to the job and leaves the others.
\<close>

definition updateJob :: "('u, 'c) JobState \<Rightarrow> JobPatch \<Rightarrow> ('u, 'c) JobState" where
  "updateJob j patch =
     j\<lparr>status := (case p_status patch of None \<Rightarrow> status j | Some s \<Rightarrow> s),
       stepMessage := (case p_stepMessage patch of None \<Rightarrow> stepMessage j | Some m \<Rightarrow> m),
       progress := (case p_progress patch of None \<Rightarrow> progress j | Some p \<Rightarrow> p),
       errorMessage := (case p_errorMessage patch of None \<Rightarrow> errorMessage j | Some m \<Rightarrow> Some m),
       finishedAt := (case p_finishedAt patch of None \<Rightarrow> finishedAt j | Some t \<Rightarrow> Some t)\<rparr>"

text \<open>
  Modelled from the spec: \<^verbatim>\<open>finishJob(job, status)\<close> of \<^verbatim>\<open>jobs.ts\<close>. The specification has the
  progress at 100 when the job is done and the finishing time stamped; \<open>now\<close> is the clock
  at the call.
\<close>

definition finishJob :: "('u, 'c) JobState \<Rightarrow> JobStatus \<Rightarrow> int \<Rightarrow> ('u, 'c) JobState" where
  "finishJob j st now =
     j\<lparr>status := st, progress := (if st = Done then 100 else progress j), finishedAt := Some now\<rparr>"

section \<open>The pipeline (\<^verbatim>\<open>server.ts\<close>)\<close>

text \<open>
  \<^verbatim>\<open>processJob\<close> is an \<^verbatim>\<open>async\<close> function. Between two \<^verbatim>\<open>await\<close>s it runs alone; while an awaited
  call is pending, a request to \<^verbatim>\<open>/api/stop\<close> may run \<^verbatim>\<open>cancelJob\<close>. The awaited calls are the
  five stages.
\<close>

datatype stage = ConvertStage | ParseStage | TranslateStage | QaStage | PackStage

text \<open>The places where \<^verbatim>\<open>processJob\<close> reads \<^verbatim>\<open>job.cancelled\<close>: after four of the stages and in the \<^verbatim>\<open>catch\<close> block.\<close>

datatype checkpoint = AfterConversion | AfterParsing | AfterTranslation | AfterQa | InCatch

text \<open>The calls of the stages, with the paths they are given.\<close>

datatype call =
    ConvertPdfToDocx string string
  | ParseDocx string
  | TranslateSegments
  | QaAndRetranslate
  | WriteDocx string

text \<open>
  What a run of \<^verbatim>\<open>processJob\<close> does that can be seen from outside, in order: a stage is
  called, the file system is changed, \<^verbatim>\<open>job.cancelled\<close> is read at a checkpoint (with the
  value read), the job is written (with the job as it is after the write), the promise
  that \<^verbatim>\<open>processJob\<close> returned is rejected (an exception leaves the function).
\<close>

datatype ('u, 'c) event =
    Invoked call
  | Effect fsEffect
  | Checked checkpoint bool
  | Wrote "('u, 'c) JobState"
  | Rejected

record ('u, 'c) run =
  job :: "('u, 'c) JobState"
  trace :: "('u, 'c) event list"

text \<open>
  What \<^verbatim>\<open>processJob\<close> calls outside \<^verbatim>\<open>server.ts\<close>: \<open>docx\<close> is the environment of
  \<^verbatim>\<open>services/docx.ts\<close>, the \<open>path_\<close> functions and \<open>toLowerCase\<close> are those of Node and of the
  language, \<open>Date_now k\<close> is the value of the \<open>k\<close>-th call of \<^verbatim>\<open>Date.now()\<close> in the run and
  \<open>uuidv4\<close> the identifier drawn for the working file. The last four fields are the
  collaborators.
\<close>

text \<open>
  Modelled from the spec: the collaborators \<^verbatim>\<open>services/adobe.ts\<close> and
  \<^verbatim>\<open>services/translator.ts\<close> and the cancellation request \<^verbatim>\<open>cancelJob\<close> of \<^verbatim>\<open>jobs.ts\<close>, none of
  them among the sources. \<open>convertPdfToDocx\<close> returns the error it fails with, if any. The
  translation passes are given the usage and cost of the job, the segments and the
  language pair; they return the new usage and cost and either fail or return the segments
  as they leave them (they set \<^verbatim>\<open>translated\<close> in place). They write nothing else of the job.
  \<open>cancelDuring s\<close> tells whether a cancellation request arrives while stage \<open>s\<close> is
  awaited; the request sets \<^verbatim>\<open>job.cancelled\<close> and nothing else.
\<close>

record ('u, 'c) server_env =
  docx :: docx_env
  path_extname :: "string \<Rightarrow> string"
  path_basename :: "string \<Rightarrow> string \<Rightarrow> string"
  path_join :: "string \<Rightarrow> string \<Rightarrow> string"
  toLowerCase :: "string \<Rightarrow> string"
  WORK_DIR :: string
  OUTPUT_DIR :: string
  uuidv4 :: string
  Date_now :: "nat \<Rightarrow> int"
  convertPdfToDocx :: "string \<Rightarrow> string \<Rightarrow> exn option"
  translateSegments ::
    "'u \<times> 'c \<Rightarrow> DocxSegment list \<Rightarrow> string \<times> string \<Rightarrow> ('u \<times> 'c) \<times> (exn + DocxSegment list)"
  qaAndRetranslate ::
    "'u \<times> 'c \<Rightarrow> DocxSegment list \<Rightarrow> string \<times> string \<Rightarrow> ('u \<times> 'c) \<times> (exn + DocxSegment list)"
  cancelDuring :: "stage \<Rightarrow> bool"

text \<open>A write to the job, a call, an effect and a read of the flag, each recorded in the trace.\<close>

definition mutate :: "(('u, 'c) JobState \<Rightarrow> ('u, 'c) JobState) \<Rightarrow> ('u, 'c) run \<Rightarrow> ('u, 'c) run" where
  "mutate f r = \<lparr>job = f (job r), trace = trace r @ [Wrote (f (job r))]\<rparr>"

definition invoke :: "call \<Rightarrow> ('u, 'c) run \<Rightarrow> ('u, 'c) run" where
  "invoke c r = r\<lparr>trace := trace r @ [Invoked c]\<rparr>"

definition effects :: "fsEffect list \<Rightarrow> ('u, 'c) run \<Rightarrow> ('u, 'c) run" where
  "effects es r = r\<lparr>trace := trace r @ map Effect es\<rparr>"

definition check :: "checkpoint \<Rightarrow> ('u, 'c) run \<Rightarrow> ('u, 'c) run" where
  "check c r = r\<lparr>trace := trace r @ [Checked c (cancelled (job r))]\<rparr>"

text \<open>
  Modelled from the spec: the effect of \<^verbatim>\<open>cancelJob\<close> of \<^verbatim>\<open>jobs.ts\<close> on the job. While stage \<open>s\<close>
  is awaited, a cancellation request may arrive; it sets the flag.
\<close>

definition awaitStage :: "('u, 'c) server_env \<Rightarrow> stage \<Rightarrow> ('u, 'c) run \<Rightarrow> ('u, 'c) run" where
  "awaitStage env s r = (if cancelDuring env s then mutate (\<lambda>j. j\<lparr>cancelled := True\<rparr>) r else r)"

text \<open>
  \<^verbatim>\<open>error.message\<close>: \<open>None\<close> is \<^verbatim>\<open>undefined\<close>, the value of a property that the thrown value does not
  have. Reading a property of \<^verbatim>\<open>null\<close> or \<^verbatim>\<open>undefined\<close> throws a \<^verbatim>\<open>TypeError\<close>; \<open>hasProperties\<close>
  tells whether the read is possible.
\<close>

fun hasProperties :: "exn \<Rightarrow> bool" where
  "hasProperties JsNullish = False"
| "hasProperties (JsError m) = True"
| "hasProperties JsValue = True"

fun message :: "exn \<Rightarrow> string option" where
  "message (JsError m) = Some m"
| "message JsNullish = None"
| "message JsValue = None"

text \<open>An exception leaves \<^verbatim>\<open>processJob\<close>: the run ends with its promise rejected.\<close>

definition reject :: "('u, 'c) run \<Rightarrow> ('u, 'c) run" where
  "reject r = r\<lparr>trace := trace r @ [Rejected]\<rparr>"

text \<open>The language pair that \<^verbatim>\<open>processJob\<close> passes to both translation passes.\<close>

definition langs :: "string \<times> string" where
  "langs = (''English'', ''Traditional Chinese'')"

text \<open>
  The body of \<^verbatim>\<open>processJob\<close>, from its end to its beginning. Each part returns the run as it
  is when control leaves the \<^verbatim>\<open>try\<close> block, and the exception if it leaves by one.

  The cleanup after \<^verbatim>\<open>done\<close>: two \<^verbatim>\<open>unlinkSync\<close> in a \<^verbatim>\<open>try\<close> whose \<^verbatim>\<open>catch\<close> ignores the error.
\<close>

definition cleanup :: "('u, 'c) server_env \<Rightarrow> string \<Rightarrow> string \<Rightarrow> ('u, 'c) run \<Rightarrow> ('u, 'c) run" where
  "cleanup env uploadedFilePath workingDocxPath r =
     (case fsThrows (docx env) (Unlink uploadedFilePath) of
        Some e \<Rightarrow> r
      | None \<Rightarrow>
          (case fsThrows (docx env) (Unlink workingDocxPath) of
             Some e \<Rightarrow> effects [Unlink uploadedFilePath] r
           | None \<Rightarrow> effects [Unlink uploadedFilePath, Unlink workingDocxPath] r))"

text \<open>Step 5, pack the output, and what follows it: the job is marked \<^verbatim>\<open>done\<close>.\<close>

definition step5_pack ::
    "('u, 'c) server_env \<Rightarrow> string \<Rightarrow> string \<Rightarrow> string \<Rightarrow> ParsedDocx \<Rightarrow> ('u, 'c) run
       \<Rightarrow> ('u, 'c) run \<times> exn option" where
  "step5_pack env baseName uploadedFilePath workingDocxPath parsed r =
     (let r1 = mutate (\<lambda>j. updateJob j (noPatch\<lparr>p_status := Some Packing,
                 p_stepMessage := Some MsgPacking, p_progress := Some 95\<rparr>)) r;
          out = path_join env (OUTPUT_DIR env) (baseName @ ''-translated.docx'');
          w = writeDocx (docx env) parsed out;
          r2 = awaitStage env PackStage (effects (performed w) (invoke (WriteDocx out) r1))
      in case thrown w of
           Some e \<Rightarrow> (r2, Some e)
         | None \<Rightarrow>
             (let r3 = mutate (\<lambda>j. j\<lparr>outputPath := Some out\<rparr>) r2;
                  r4 = mutate (\<lambda>j. finishJob j Done (Date_now env 1)) r3;
                  r5 = mutate (\<lambda>j. updateJob j (noPatch\<lparr>p_stepMessage := Some MsgDone\<rparr>)) r4
              in (cleanup env uploadedFilePath workingDocxPath r5, None)))"

text \<open>Step 4, QA and retranslation, and the checkpoint after it.\<close>

definition step4_qa ::
    "('u, 'c) server_env \<Rightarrow> string \<Rightarrow> string \<Rightarrow> string \<Rightarrow> ParsedDocx \<Rightarrow> ('u, 'c) run
       \<Rightarrow> ('u, 'c) run \<times> exn option" where
  "step4_qa env baseName uploadedFilePath workingDocxPath parsed r =
     (let res = qaAndRetranslate env (usage (job r), costUSD (job r)) (segments parsed) langs;
          r1 = awaitStage env QaStage
                 (mutate (\<lambda>j. j\<lparr>usage := fst (fst res), costUSD := snd (fst res)\<rparr>)
                    (invoke QaAndRetranslate r))
      in case snd res of
           Inl e \<Rightarrow> (r1, Some e)
         | Inr segs \<Rightarrow>
             (let r2 = check AfterQa r1
              in if cancelled (job r2) then (r2, None)
                 else step5_pack env baseName uploadedFilePath workingDocxPath
                        (parsed\<lparr>segments := segs\<rparr>) r2))"

text \<open>Step 3, translation, and the checkpoint after it.\<close>

definition step3_translate ::
    "('u, 'c) server_env \<Rightarrow> string \<Rightarrow> string \<Rightarrow> string \<Rightarrow> ParsedDocx \<Rightarrow> ('u, 'c) run
       \<Rightarrow> ('u, 'c) run \<times> exn option" where
  "step3_translate env baseName uploadedFilePath workingDocxPath parsed r =
     (let r1 = mutate (\<lambda>j. updateJob j (noPatch\<lparr>p_status := Some Translating,
                 p_stepMessage := Some MsgTranslating, p_progress := Some 20\<rparr>)) r;
          res = translateSegments env (usage (job r1), costUSD (job r1)) (segments parsed) langs;
          r2 = awaitStage env TranslateStage
                 (mutate (\<lambda>j. j\<lparr>usage := fst (fst res), costUSD := snd (fst res)\<rparr>)
                    (invoke TranslateSegments r1))
      in case snd res of
           Inl e \<Rightarrow> (r2, Some e)
         | Inr segs \<Rightarrow>
             (let r3 = check AfterTranslation r2
              in if cancelled (job r3) then (r3, None)
                 else step4_qa env baseName uploadedFilePath workingDocxPath
                        (parsed\<lparr>segments := segs\<rparr>) r3))"

text \<open>Step 2, parsing, and the checkpoint after it.\<close>

definition step2_parse ::
    "('u, 'c) server_env \<Rightarrow> string \<Rightarrow> string \<Rightarrow> string \<Rightarrow> ('u, 'c) run
       \<Rightarrow> ('u, 'c) run \<times> exn option" where
  "step2_parse env baseName uploadedFilePath workingDocxPath r =
     (let r1 = mutate (\<lambda>j. updateJob j (noPatch\<lparr>p_status := Some ParsingDocx,
                 p_stepMessage := Some MsgParsing, p_progress := Some 15\<rparr>)) r;
          r2 = awaitStage env ParseStage (invoke (ParseDocx workingDocxPath) r1)
      in case parseDocx (docx env) workingDocxPath of
           Inl e \<Rightarrow> (r2, Some e)
         | Inr parsed \<Rightarrow>
             (let r3 = mutate (\<lambda>j. j\<lparr>totalSegments := length (segments parsed)\<rparr>) r2;
                  r4 = check AfterParsing r3
              in if cancelled (job r4) then (r4, None)
                 else step3_translate env baseName uploadedFilePath workingDocxPath parsed r4))"

text \<open>
  The \<^verbatim>\<open>try\<close> block from its beginning: the start time, then step 1, the conversion of a PDF
  with the checkpoint after it, or else the copy of the uploaded document.
\<close>

definition tryBlock ::
    "('u, 'c) server_env \<Rightarrow> ('u, 'c) JobState \<Rightarrow> string \<Rightarrow> ('u, 'c) run \<times> exn option" where
  "tryBlock env j uploadedFilePath =
     (let ext = toLowerCase env (path_extname env (fileName j));
          baseName = path_basename env (fileName j) ext;
          r1 = mutate (\<lambda>j. j\<lparr>startedAt := Some (Date_now env 0)\<rparr>) \<lparr>job = j, trace = []\<rparr>;
          workingDocxPath = path_join env (WORK_DIR env) (uuidv4 env @ ''.docx'')
      in if ext = ''.pdf'' then
           (let r2 = mutate (\<lambda>j. updateJob j (noPatch\<lparr>p_status := Some Converting,
                       p_stepMessage := Some MsgConverting, p_progress := Some 5\<rparr>)) r1;
                r3 = awaitStage env ConvertStage
                       (invoke (ConvertPdfToDocx uploadedFilePath workingDocxPath) r2)
            in case convertPdfToDocx env uploadedFilePath workingDocxPath of
                 Some e \<Rightarrow> (r3, Some e)
               | None \<Rightarrow>
                   (let r4 = check AfterConversion r3
                    in if cancelled (job r4) then (r4, None)
                       else step2_parse env baseName uploadedFilePath workingDocxPath r4))
         else
           (case fsThrows (docx env) (CopyFile uploadedFilePath workingDocxPath) of
              Some e \<Rightarrow> (r1, Some e)
            | None \<Rightarrow>
                step2_parse env baseName uploadedFilePath workingDocxPath
                  (effects [CopyFile uploadedFilePath workingDocxPath] r1)))"

text \<open>
  The \<^verbatim>\<open>catch\<close> block. The object literal passed to \<^verbatim>\<open>updateJob\<close> is built first: the expression
  \<^verbatim>\<open>error.message || "Unknown error"\<close> throws when \<^verbatim>\<open>error\<close> is \<^verbatim>\<open>null\<close> or \<^verbatim>\<open>undefined\<close>, and then
  \<^verbatim>\<open>updateJob\<close> is not called; it yields \<^verbatim>\<open>Unknown error\<close> when the message is absent or the empty
  string.
\<close>

definition catchBlock :: "('u, 'c) server_env \<Rightarrow> exn \<Rightarrow> ('u, 'c) run \<Rightarrow> ('u, 'c) run" where
  "catchBlock env e r =
     (let r1 = check InCatch r
      in if cancelled (job r1) then r1
         else if \<not> hasProperties e then reject r1
         else mutate (\<lambda>j. updateJob j (noPatch\<lparr>p_status := Some Error,
                p_errorMessage :=
                  Some (case message e of
                          None \<Rightarrow> ''Unknown error''
                        | Some m \<Rightarrow> if m = [] then ''Unknown error'' else m),
                p_stepMessage := Some MsgFailed, p_finishedAt := Some (Date_now env 1)\<rparr>)) r1)"

text \<open>
  \<^verbatim>\<open>processJob(job, uploadedFilePath)\<close>. The result is the run: the job as the function
  leaves it and what it did; a run whose promise is rejected ends with \<open>Rejected\<close>.
\<close>

definition processJob ::
    "('u, 'c) server_env \<Rightarrow> ('u, 'c) JobState \<Rightarrow> string \<Rightarrow> ('u, 'c) run" where
  "processJob env j uploadedFilePath =
     (case tryBlock env j uploadedFilePath of
        (r, None) \<Rightarrow> r
      | (r, Some e) \<Rightarrow> catchBlock env e r)"

section \<open>Notions used to state and prove the properties of the document engine\<close>

text \<open>A tree in which every object has each of its keys once, as JavaScript objects do.\<close>

fun uniqueKeys :: "xnode \<Rightarrow> bool" where
  "uniqueKeys (Str s) = True"
| "uniqueKeys (Arr items) = (\<forall>x \<in> set items. uniqueKeys x)"
| "uniqueKeys (Obj kvs) = (distinct (map fst kvs) \<and> (\<forall>kv \<in> set kvs. uniqueKeys (snd kv)))"

text \<open>A reference that leads to a text-bearing leaf: an object with a \<^verbatim>\<open>#text\<close> property.\<close>

definition isLeafAt :: "xnode \<Rightarrow> noderef \<Rightarrow> bool" where
  "isLeafAt doc wt = (case deref doc wt of Some item \<Rightarrow> isTextItem item | None \<Rightarrow> False)"

text \<open>
  Two references are incomparable when neither path continues the other: they lead to
  two objects neither of which lies inside the other. A list of references is independent
  when its members are pairwise incomparable (in particular, pairwise different).
\<close>

definition incomparable :: "noderef \<Rightarrow> noderef \<Rightarrow> bool" where
  "incomparable a b = (\<not> prefix a b \<and> \<not> prefix b a)"

fun indep :: "noderef list \<Rightarrow> bool" where
  "indep [] = True"
| "indep (r # rs) = ((\<forall>q \<in> set rs. incomparable r q) \<and> indep rs)"

definition good :: "xnode \<Rightarrow> noderef list \<Rightarrow> bool" where
  "good n rs = (indep rs \<and> (\<forall>q \<in> set rs. isLeafAt n q))"

definition goodItems :: "nat \<Rightarrow> xnode list \<Rightarrow> noderef list \<Rightarrow> bool" where
  "goodItems i items rs =
     (indep rs \<and>
      (\<forall>q \<in> set rs. \<exists>j q'. q = Idx (i + j) # q' \<and> j < length items \<and> isLeafAt (items ! j) q'))"

definition goodKeys :: "(string \<times> xnode) list \<Rightarrow> noderef list \<Rightarrow> bool" where
  "goodKeys kvs rs =
     (indep rs \<and> (\<forall>q \<in> set rs. \<exists>k v q'. q = Key k # q' \<and> (k, v) \<in> set kvs \<and> isLeafAt v q'))"

text \<open>
  The traversals without their accumulators and with paths relative to the node they start
  from: \<open>leavesOf n\<close> is what \<open>collectWtNodes\<close> adds for \<open>n\<close>, \<open>parasOf n\<close> is, for each
  paragraph that \<open>extractSegmentsByParagraph\<close> reaches in \<open>n\<close>, the references collected in
  it.
\<close>

fun textItems :: "nat \<Rightarrow> xnode list \<Rightarrow> noderef list" where
  "textItems i [] = []"
| "textItems i (item # items) = (if isTextItem item then [[Idx i]] else []) @ textItems (Suc i) items"

fun leavesOf :: "xnode \<Rightarrow> noderef list"
  and leavesOf_items :: "nat \<Rightarrow> xnode list \<Rightarrow> noderef list"
  and leavesOf_keys :: "(string \<times> xnode) list \<Rightarrow> noderef list"
where
  "leavesOf (Arr items) = leavesOf_items 0 items"
| "leavesOf (Str s) = []"
| "leavesOf (Obj kvs) =
     (if hasKey ''w:t'' kvs then
        (case map_of kvs ''w:t'' of
           Some (Arr wtContent) \<Rightarrow> map ((#) (Key ''w:t'')) (textItems 0 wtContent)
         | _ \<Rightarrow> [])
      else leavesOf_keys kvs)"
| "leavesOf_items i [] = []"
| "leavesOf_items i (item # items) = map ((#) (Idx i)) (leavesOf item) @ leavesOf_items (Suc i) items"
| "leavesOf_keys [] = []"
| "leavesOf_keys ((key, v) # kvs) =
     (if isChildKey key then map ((#) (Key key)) (leavesOf v) else []) @ leavesOf_keys kvs"

fun parasOf :: "xnode \<Rightarrow> noderef list list"
  and parasOf_items :: "nat \<Rightarrow> xnode list \<Rightarrow> noderef list list"
  and parasOf_keys :: "(string \<times> xnode) list \<Rightarrow> noderef list list"
where
  "parasOf (Arr items) = parasOf_items 0 items"
| "parasOf (Str s) = []"
| "parasOf (Obj kvs) =
     (if hasKey ''w:p'' kvs then
        [case map_of kvs ''w:p'' of
           None \<Rightarrow> []
         | Some para \<Rightarrow> map ((#) (Key ''w:p'')) (leavesOf para)]
      else parasOf_keys kvs)"
| "parasOf_items i [] = []"
| "parasOf_items i (item # items) =
     map (map ((#) (Idx i))) (parasOf item) @ parasOf_items (Suc i) items"
| "parasOf_keys [] = []"
| "parasOf_keys ((key, v) # kvs) =
     (if isChildKey key then map (map ((#) (Key key))) (parasOf v) else []) @ parasOf_keys kvs"

text \<open>What the paragraph branch of \<open>extractSegmentsByParagraph\<close> does with the references of one paragraph.\<close>

definition emit :: "xnode \<Rightarrow> noderef list \<Rightarrow> DocxSegment list \<times> nat \<Rightarrow> DocxSegment list \<times> nat" where
  "emit doc wt st =
     (if wt \<noteq> [] \<and> trim (concat (map (getText doc) wt)) \<noteq> [] then
        (fst st @ [\<lparr>id_seg = snd st, text_seg = concat (map (getText doc) wt), translated = None,
                    wtNodes = wt\<rparr>], snd st + 1)
      else st)"

definition keep :: "xnode \<Rightarrow> noderef list \<Rightarrow> bool" where
  "keep doc wt = (wt \<noteq> [] \<and> trim (concat (map (getText doc) wt)) \<noteq> [])"

text \<open>
  The leaves of the paragraph object \<open>Obj kvs\<close> found at path \<open>p\<close>, and their concatenated
  text: the \<open>wtNodes\<close> and \<open>mergedText\<close> of the paragraph branch.
\<close>

definition paragraphLeaves :: "noderef \<Rightarrow> (string \<times> xnode) list \<Rightarrow> noderef list" where
  "paragraphLeaves p kvs =
     (case map_of kvs ''w:p'' of
        None \<Rightarrow> []
      | Some para \<Rightarrow> collectWtNodes (p @ [Key ''w:p'']) para [])"

definition paragraphText :: "xnode \<Rightarrow> noderef \<Rightarrow> (string \<times> xnode) list \<Rightarrow> string" where
  "paragraphText doc p kvs = concat (map (getText doc) (paragraphLeaves p kvs))"

text \<open>
  The markup of a tree: the tree with the value of every \<^verbatim>\<open>#text\<close> property blanked. Two trees
  with the same markup have the same elements, attributes and nesting, in the same order,
  and differ at most in text content.
\<close>

fun markup :: "xnode \<Rightarrow> xnode" where
  "markup (Str s) = Str s"
| "markup (Arr items) = Arr (map markup items)"
| "markup (Obj kvs) =
     Obj (map (\<lambda>kv. (fst kv, if fst kv = ''#text'' then Str [] else markup (snd kv))) kvs)"

text \<open>The invariant of a segment that extraction has produced.\<close>

definition segInv :: "xnode \<Rightarrow> DocxSegment \<Rightarrow> bool" where
  "segInv doc s =
     (wtNodes s \<noteq> [] \<and> text_seg s = concat (map (getText doc) (wtNodes s)) \<and>
      trim (text_seg s) \<noteq> [] \<and> translated s = None)"

text \<open>
  Document order. Two references are compared at the first step where their paths part:
  in an array the smaller index comes first, in an object the key that comes first in the
  order of \<^verbatim>\<open>Object.keys\<close>. With \<^verbatim>\<open>preserveOrder: true\<close> the parser returns the children
  of an element as an array in the order of the XML text, so this is the order in which
  the leaves occur in the document. A reference is not before itself, and a path is not
  compared with its own continuation.
\<close>

fun keyBefore :: "string \<Rightarrow> string \<Rightarrow> string list \<Rightarrow> bool" where
  "keyBefore k l [] = False"
| "keyBefore k l (x # xs) = (if x = k then l \<in> set xs else if x = l then False else keyBefore k l xs)"

fun stepBefore :: "xnode \<Rightarrow> step \<Rightarrow> step \<Rightarrow> bool" where
  "stepBefore (Arr items) (Idx i) (Idx j) = (i < j)"
| "stepBefore (Obj kvs) (Key k) (Key l) = keyBefore k l (map fst kvs)"
| "stepBefore _ _ _ = False"

fun docBefore :: "xnode \<Rightarrow> noderef \<Rightarrow> noderef \<Rightarrow> bool" where
  "docBefore n (s # a) (t # b) =
     (if s = t then (case getChild n s of None \<Rightarrow> False | Some c \<Rightarrow> docBefore c a b)
      else stepBefore n s t)"
| "docBefore n _ _ = False"

text \<open>
  A paragraph is an object with a \<^verbatim>\<open>w:p\<close> property; \<open>isParagraphAt doc p\<close> says that the path
  \<open>p\<close> leads to one. A step of a path is an element step when it is an index or a key
  other than \<^verbatim>\<open>:@\<close> and \<^verbatim>\<open>#text\<close>.
\<close>

definition isParagraph :: "xnode \<Rightarrow> bool" where
  "isParagraph n = (case n of Obj kvs \<Rightarrow> hasKey ''w:p'' kvs | _ \<Rightarrow> False)"

definition isParagraphAt :: "xnode \<Rightarrow> noderef \<Rightarrow> bool" where
  "isParagraphAt doc p = (case deref doc p of Some n \<Rightarrow> isParagraph n | None \<Rightarrow> False)"

definition isElementStep :: "step \<Rightarrow> bool" where
  "isElementStep s = (case s of Key k \<Rightarrow> isChildKey k | Idx i \<Rightarrow> True)"

text \<open>
  An outermost paragraph: the path leads to a paragraph through element steps only, and
  no node on the way is itself a paragraph. A paragraph inside another paragraph (in a
  text box, say) is not outermost.
\<close>

fun outermost :: "xnode \<Rightarrow> noderef \<Rightarrow> bool" where
  "outermost n [] = isParagraph n"
| "outermost n (s # p) =
     (\<not> isParagraph n \<and> isElementStep s \<and>
      (case getChild n s of None \<Rightarrow> False | Some c \<Rightarrow> outermost c p))"

text \<open>
  The leaves and the text of the paragraph at path \<open>p\<close> of a document, and the segment
  with id \<open>i\<close> that the paragraph branch builds for it.
\<close>

definition paragraphLeavesAt :: "xnode \<Rightarrow> noderef \<Rightarrow> noderef list" where
  "paragraphLeavesAt doc p = (case deref doc p of Some (Obj kvs) \<Rightarrow> paragraphLeaves p kvs | _ \<Rightarrow> [])"

definition paragraphTextAt :: "xnode \<Rightarrow> noderef \<Rightarrow> string" where
  "paragraphTextAt doc p = concat (map (getText doc) (paragraphLeavesAt doc p))"

definition segmentAt :: "xnode \<Rightarrow> nat \<Rightarrow> noderef \<Rightarrow> DocxSegment" where
  "segmentAt doc i p =
     \<lparr>id_seg = i, text_seg = paragraphTextAt doc p, translated = None,
      wtNodes = paragraphLeavesAt doc p\<rparr>"

text \<open>
  For the proofs: the paths of the paragraphs that the traversal reaches in a node,
  relative to the node, and the two loops of the traversals over an arbitrary function
  \<open>f\<close> of the children.
\<close>

fun underItems :: "(xnode \<Rightarrow> noderef list) \<Rightarrow> nat \<Rightarrow> xnode list \<Rightarrow> noderef list" where
  "underItems f i [] = []"
| "underItems f i (item # items) = map ((#) (Idx i)) (f item) @ underItems f (Suc i) items"

fun underKeys :: "(xnode \<Rightarrow> noderef list) \<Rightarrow> (string \<times> xnode) list \<Rightarrow> noderef list" where
  "underKeys f [] = []"
| "underKeys f ((key, v) # kvs) =
     (if isChildKey key then map ((#) (Key key)) (f v) else []) @ underKeys f kvs"

fun paraPaths :: "xnode \<Rightarrow> noderef list"
  and paraPaths_items :: "nat \<Rightarrow> xnode list \<Rightarrow> noderef list"
  and paraPaths_keys :: "(string \<times> xnode) list \<Rightarrow> noderef list"
where
  "paraPaths (Arr items) = paraPaths_items 0 items"
| "paraPaths (Str s) = []"
| "paraPaths (Obj kvs) = (if hasKey ''w:p'' kvs then [[]] else paraPaths_keys kvs)"
| "paraPaths_items i [] = []"
| "paraPaths_items i (item # items) = map ((#) (Idx i)) (paraPaths item) @ paraPaths_items (Suc i) items"
| "paraPaths_keys [] = []"
| "paraPaths_keys ((key, v) # kvs) =
     (if isChildKey key then map ((#) (Key key)) (paraPaths v) else []) @ paraPaths_keys kvs"

section \<open>Example documents\<close>

text \<open>
  What the parser returns for a run \<^verbatim>\<open><w:r><w:t>s</w:t></w:r>\<close>, for a paragraph of runs and for
  a document with the given paragraphs in its body.
\<close>

definition exampleRun :: "string \<Rightarrow> xnode" where
  "exampleRun s = Obj [(''w:r'', Arr [Obj [(''w:t'', Arr [Obj [(''#text'', Str s)]])]])]"

definition exampleParagraph :: "xnode list \<Rightarrow> xnode" where
  "exampleParagraph runs = Obj [(''w:p'', Arr runs)]"

definition exampleDocument :: "xnode list \<Rightarrow> xnode" where
  "exampleDocument paras = Arr [Obj [(''w:document'', Arr [Obj [(''w:body'', Arr paras)]])]]"

text \<open>One paragraph split across three formatting runs.\<close>

definition foxDoc :: xnode where
  "foxDoc = exampleDocument [exampleParagraph [exampleRun ''The '', exampleRun ''quick'', exampleRun '' fox'']]"

definition foxRef :: "nat \<Rightarrow> noderef" where
  "foxRef i = [Idx 0, Key ''w:document'', Idx 0, Key ''w:body'', Idx 0, Key ''w:p'', Idx i,
               Key ''w:r'', Idx 0, Key ''w:t'', Idx 0]"

definition foxSegment :: "string option \<Rightarrow> DocxSegment" where
  "foxSegment tr = \<lparr>id_seg = 0, text_seg = ''The quick fox'', translated = tr,
                    wtNodes = [foxRef 0, foxRef 1, foxRef 2]\<rparr>"

text \<open>Two paragraphs, the second of white space only.\<close>

definition helloDoc :: xnode where
  "helloDoc = exampleDocument [exampleParagraph [exampleRun ''Hello world.''],
                               exampleParagraph [exampleRun ''  '']]"

definition helloRef :: "nat \<Rightarrow> noderef" where
  "helloRef i = [Idx 0, Key ''w:document'', Idx 0, Key ''w:body'', Idx i, Key ''w:p'', Idx 0,
                 Key ''w:r'', Idx 0, Key ''w:t'', Idx 0]"

definition helloPara :: "nat \<Rightarrow> noderef" where
  "helloPara i = [Idx 0, Key ''w:document'', Idx 0, Key ''w:body'', Idx i]"

text \<open>
  A paragraph with a text box: the run \<^verbatim>\<open>outer\<close>, then a run whose drawing holds a
  paragraph of its own with the run \<^verbatim>\<open>inner\<close>.
\<close>

definition nestedDoc :: xnode where
  "nestedDoc =
     exampleDocument
       [exampleParagraph
          [exampleRun ''outer '',
           Obj [(''w:r'', Arr [Obj [(''w:drawing'', Arr [Obj [(''w:txbxContent'',
                  Arr [exampleParagraph [exampleRun ''inner'']])]])]])]]]"

definition outerPara :: noderef where
  "outerPara = [Idx 0, Key ''w:document'', Idx 0, Key ''w:body'', Idx 0]"

definition innerPara :: noderef where
  "innerPara = outerPara @ [Key ''w:p'', Idx 1, Key ''w:r'', Idx 0, Key ''w:drawing'', Idx 0,
                            Key ''w:txbxContent'', Idx 0]"

text \<open>
  An environment in which every outside call succeeds: the archive has a body entry and
  the parser returns the three-run document.
\<close>

definition exampleZip :: zip where
  "exampleZip = [''word/document.xml'' \<mapsto> ''<w:document/>'', ''word/styles.xml'' \<mapsto> ''<w:styles/>'']"

definition exampleEnv :: docx_env where
  "exampleEnv =
     \<lparr>readFileSync = (\<lambda>path. Inr ''PK''),
      loadAsync = (\<lambda>buffer. Inr exampleZip),
      asyncString = (\<lambda>stored. Inr stored),
      xmlParse = (\<lambda>xml. Inr foxDoc),
      xmlBuild = (\<lambda>doc. Inr ''<w:document>built</w:document>''),
      generateAsync = (\<lambda>z. Inr ''PK-out''),
      path_dirname = (\<lambda>path. ''output''),
      existsSync = (\<lambda>path. True),
      fsThrows = (\<lambda>effect. None)\<rparr>"

definition exampleParsed :: ParsedDocx where
  "exampleParsed = \<lparr>zip_docx = exampleZip, documentXml = foxDoc, segments = [foxSegment None]\<rparr>"

text \<open>The same archive with a body the XML parser rejects.\<close>

definition malformedEnv :: docx_env where
  "malformedEnv = exampleEnv\<lparr>xmlParse := (\<lambda>xml. Inl (JsError ''Comment is not closed.''))\<rparr>"

text \<open>
  An input that is not an archive, an archive without a body entry, and an archive whose
  body entry cannot be read.
\<close>

definition unreadableEnv :: docx_env where
  "unreadableEnv = exampleEnv\<lparr>asyncString := (\<lambda>stored. Inl (JsError ''Corrupted zip: CRC32 mismatch''))\<rparr>"


definition notZipEnv :: docx_env where
  "notZipEnv = exampleEnv\<lparr>loadAsync := (\<lambda>buffer. Inl (JsError ''End of data reached''))\<rparr>"

definition noBodyEnv :: docx_env where
  "noBodyEnv = exampleEnv\<lparr>loadAsync := (\<lambda>buffer. Inr [''word/styles.xml'' \<mapsto> ''<w:styles/>''])\<rparr>"

section \<open>Notions used to state and prove the properties of the pipeline\<close>

text \<open>A job that is neither done nor failed and has no output path.\<close>

definition okJob :: "('u, 'c) JobState \<Rightarrow> bool" where
  "okJob j = (status j \<noteq> Done \<and> status j \<noteq> Error \<and> outputPath j = None)"

text \<open>
  An event that is none of these: the flag read as set, a write that makes the job done
  or failed or gives it an output path, the writing of a file.
\<close>

fun quiet :: "('u, 'c) event \<Rightarrow> bool" where
  "quiet (Checked c b) = (\<not> b)"
| "quiet (Wrote j) = okJob j"
| "quiet (Effect f) = (case f of WriteFile p b \<Rightarrow> False | _ \<Rightarrow> True)"
| "quiet (Invoked c) = True"
| "quiet Rejected = True"

text \<open>An event other than a call of \<^verbatim>\<open>writeDocx\<close>.\<close>

fun noWriteBack :: "('u, 'c) event \<Rightarrow> bool" where
  "noWriteBack (Invoked c) = (case c of WriteDocx p \<Rightarrow> False | _ \<Rightarrow> True)"
| "noWriteBack _ = True"

text \<open>An event other than the flag read as set.\<close>

fun unobserved :: "('u, 'c) event \<Rightarrow> bool" where
  "unobserved (Checked c b) = (\<not> b)"
| "unobserved _ = True"

text \<open>
  The states of a run, as the proofs tell them apart: still running without having
  reached write-back, stopped at a checkpoint after a stage, finished without ever reading
  the flag as set, left by an exception, and stopped in the \<^verbatim>\<open>catch\<close> block.
\<close>

definition running :: "('u, 'c) run \<Rightarrow> bool" where
  "running r = (list_all quiet (trace r) \<and> list_all noWriteBack (trace r) \<and> okJob (job r))"

definition stopped :: "('u, 'c) run \<Rightarrow> bool" where
  "stopped r =
     (\<exists>pre c. trace r = pre @ [Checked c True] \<and> c \<noteq> InCatch \<and> list_all quiet pre \<and>
              list_all noWriteBack pre \<and> okJob (job r))"

definition finished :: "('u, 'c) run \<Rightarrow> bool" where
  "finished r = list_all unobserved (trace r)"

definition threw :: "('u, 'c) run \<Rightarrow> bool" where
  "threw r = (list_all quiet (trace r) \<and> okJob (job r))"

definition swallowed :: "('u, 'c) run \<Rightarrow> bool" where
  "swallowed r = (\<exists>pre. trace r = pre @ [Checked InCatch True] \<and> list_all quiet pre \<and> okJob (job r))"

text \<open>What leaving the \<^verbatim>\<open>try\<close> block can look like.\<close>

definition outcome :: "('u, 'c) run \<times> exn option \<Rightarrow> bool" where
  "outcome res = (case snd res of None \<Rightarrow> stopped (fst res) \<or> finished (fst res) | Some e \<Rightarrow> threw (fst res))"

text \<open>The last thing the run did was to read the flag as set.\<close>

definition observedLast :: "('u, 'c) run \<Rightarrow> bool" where
  "observedLast r = (\<exists>pre c. trace r = pre @ [Checked c True])"

text \<open>
  A run that returned from the \<^verbatim>\<open>try\<close> block either ended on reading the flag as set, or its
  flag is not set unless the request arrived during packing.
\<close>

definition complete :: "('u, 'c) server_env \<Rightarrow> ('u, 'c) run \<times> exn option \<Rightarrow> bool" where
  "complete env res =
     (case snd res of
        None \<Rightarrow> observedLast (fst res) \<or> (cancelled (job (fst res)) \<longrightarrow> cancelDuring env PackStage)
      | Some e \<Rightarrow> True)"

text \<open>
  The values of \<^verbatim>\<open>job.progress\<close> along a trace, from the value \<open>p\<close> before it: one for each
  write to the job.
\<close>

fun progressHistory :: "int \<Rightarrow> ('u, 'c) event list \<Rightarrow> int list" where
  "progressHistory p [] = [p]"
| "progressHistory p (Wrote j # t) = p # progressHistory (progress j) t"
| "progressHistory p (e # t) = progressHistory p t"

text \<open>
  The calls and checkpoints of a trace, each with the value of \<^verbatim>\<open>job.progress\<close> at that
  moment.
\<close>

fun progressAt :: "int \<Rightarrow> ('u, 'c) event list \<Rightarrow> (('u, 'c) event \<times> int) list" where
  "progressAt p [] = []"
| "progressAt p (Wrote j # t) = progressAt (progress j) t"
| "progressAt p (Effect f # t) = progressAt p t"
| "progressAt p (Rejected # t) = progressAt p t"
| "progressAt p (e # t) = (e, p) # progressAt p t"

text \<open>
  The stage of a call, the checkpoint that follows a stage in \<^verbatim>\<open>processJob\<close> (none follows
  packing), and the status that \<^verbatim>\<open>processJob\<close> has given the job when it calls a stage (QA
  runs under the status of translation).
\<close>

fun stageOf :: "call \<Rightarrow> stage" where
  "stageOf (ConvertPdfToDocx src dst) = ConvertStage"
| "stageOf (ParseDocx path) = ParseStage"
| "stageOf TranslateSegments = TranslateStage"
| "stageOf QaAndRetranslate = QaStage"
| "stageOf (WriteDocx path) = PackStage"

fun checkpointAfter :: "stage \<Rightarrow> checkpoint option" where
  "checkpointAfter ConvertStage = Some AfterConversion"
| "checkpointAfter ParseStage = Some AfterParsing"
| "checkpointAfter TranslateStage = Some AfterTranslation"
| "checkpointAfter QaStage = Some AfterQa"
| "checkpointAfter PackStage = None"


text \<open>
  Reading a trace: \<open>afterStage s t\<close> is what follows the first call of stage \<open>s\<close> in \<open>t\<close>
  (nothing if the stage is not called). \<open>nextRead t\<close> is the first read of
  \<^verbatim>\<open>job.cancelled\<close> in \<open>t\<close>, with the value read, provided that it comes before any further
  call of a stage and before the end of the run; writes to the job and effects on the file
  system may come before it.
\<close>

fun afterStage :: "stage \<Rightarrow> ('u, 'c) event list \<Rightarrow> ('u, 'c) event list" where
  "afterStage s [] = []"
| "afterStage s (Invoked c # t) = (if stageOf c = s then t else afterStage s t)"
| "afterStage s (Effect f # t) = afterStage s t"
| "afterStage s (Checked c b # t) = afterStage s t"
| "afterStage s (Wrote j # t) = afterStage s t"
| "afterStage s (Rejected # t) = afterStage s t"

fun nextRead :: "('u, 'c) event list \<Rightarrow> (checkpoint \<times> bool) option" where
  "nextRead [] = None"
| "nextRead (Checked c b # t) = Some (c, b)"
| "nextRead (Invoked c # t) = None"
| "nextRead (Rejected # t) = None"
| "nextRead (Effect f # t) = nextRead t"
| "nextRead (Wrote j # t) = nextRead t"

text \<open>
  The calls of the stages in a run of \<^verbatim>\<open>processJob\<close>, told from the job, the uploaded file
  and what the outside calls return. The working path and the output path are those
  \<^verbatim>\<open>processJob\<close> computes; the input is a PDF when the lower-cased extension of the file name
  is \<^verbatim>\<open>.pdf\<close>.
\<close>

definition pdfInput :: "('u, 'c) server_env \<Rightarrow> ('u, 'c) JobState \<Rightarrow> bool" where
  "pdfInput env j = (toLowerCase env (path_extname env (fileName j)) = ''.pdf'')"

definition workingPath :: "('u, 'c) server_env \<Rightarrow> string" where
  "workingPath env = path_join env (WORK_DIR env) (uuidv4 env @ ''.docx'')"

definition outputPathOf :: "('u, 'c) server_env \<Rightarrow> ('u, 'c) JobState \<Rightarrow> string" where
  "outputPathOf env j =
     path_join env (OUTPUT_DIR env)
       (path_basename env (fileName j) (toLowerCase env (path_extname env (fileName j)))
          @ ''-translated.docx'')"

text \<open>The error of a call that fails, if it fails.\<close>

definition failure :: "exn + 'a \<Rightarrow> exn option" where
  "failure res = (case res of Inl e \<Rightarrow> Some e | Inr v \<Rightarrow> None)"

text \<open>
  \<open>called env j up s = Some (b, x)\<close> says that the run \<open>processJob env j up\<close> calls stage
  \<open>s\<close>, that \<^verbatim>\<open>job.cancelled\<close> is \<open>b\<close> when the call is made, and that the call ends with \<open>x\<close>:
  it returns (\<open>None\<close>) or throws \<open>e\<close> (\<open>Some e\<close>). \<open>called env j up s = None\<close> says that
  the run does not call the stage.

  The conversion is called for a PDF, whatever the flag. The run enters step 2 after a
  conversion that was called with the flag unset and returned, no cancellation request
  having arrived meanwhile, or, for a document, after the copy of the uploaded file, if the
  copy did not throw; parsing is called then. Each later stage is called when
  the stage before it was called with the flag unset, returned, and no cancellation request
  arrived while it was awaited. Translation is given the usage and cost of the job and the
  segments of the parser, QA the usage, cost and segments that translation returned, and
  write-back the parsed document with the segments that QA returned.
\<close>

definition convertCall ::
    "('u, 'c) server_env \<Rightarrow> ('u, 'c) JobState \<Rightarrow> string \<Rightarrow> (bool \<times> exn option) option" where
  "convertCall env j up =
     (if pdfInput env j then Some (cancelled j, convertPdfToDocx env up (workingPath env)) else None)"

text \<open>The run enters step 2: parsing is the next call.\<close>

definition entered :: "('u, 'c) server_env \<Rightarrow> ('u, 'c) JobState \<Rightarrow> string \<Rightarrow> bool" where
  "entered env j up =
     (if pdfInput env j then
        convertCall env j up = Some (False, None) \<and> \<not> cancelDuring env ConvertStage
      else fsThrows (docx env) (CopyFile up (workingPath env)) = None)"

definition parseCall ::
    "('u, 'c) server_env \<Rightarrow> ('u, 'c) JobState \<Rightarrow> string \<Rightarrow> (bool \<times> exn option) option" where
  "parseCall env j up =
     (if entered env j up
      then Some (cancelled j, failure (parseDocx (docx env) (workingPath env)))
      else None)"

definition translateCall ::
    "('u, 'c) server_env \<Rightarrow> ('u, 'c) JobState \<Rightarrow> string \<Rightarrow> (bool \<times> exn option) option" where
  "translateCall env j up =
     (if parseCall env j up = Some (False, None) \<and> \<not> cancelDuring env ParseStage then
        (case parseDocx (docx env) (workingPath env) of
           Inl e \<Rightarrow> None
         | Inr parsed \<Rightarrow>
             Some (False,
               failure (snd (translateSegments env (usage j, costUSD j) (segments parsed) langs))))
      else None)"

definition qaCall ::
    "('u, 'c) server_env \<Rightarrow> ('u, 'c) JobState \<Rightarrow> string \<Rightarrow> (bool \<times> exn option) option" where
  "qaCall env j up =
     (if translateCall env j up = Some (False, None) \<and> \<not> cancelDuring env TranslateStage then
        (case parseDocx (docx env) (workingPath env) of
           Inl e \<Rightarrow> None
         | Inr parsed \<Rightarrow>
             (case translateSegments env (usage j, costUSD j) (segments parsed) langs of
                (m1, Inl e) \<Rightarrow> None
              | (m1, Inr segs1) \<Rightarrow>
                  Some (False, failure (snd (qaAndRetranslate env m1 segs1 langs)))))
      else None)"

definition packCall ::
    "('u, 'c) server_env \<Rightarrow> ('u, 'c) JobState \<Rightarrow> string \<Rightarrow> (bool \<times> exn option) option" where
  "packCall env j up =
     (if qaCall env j up = Some (False, None) \<and> \<not> cancelDuring env QaStage then
        (case parseDocx (docx env) (workingPath env) of
           Inl e \<Rightarrow> None
         | Inr parsed \<Rightarrow>
             (case translateSegments env (usage j, costUSD j) (segments parsed) langs of
                (m1, Inl e) \<Rightarrow> None
              | (m1, Inr segs1) \<Rightarrow>
                  (case qaAndRetranslate env m1 segs1 langs of
                     (m2, Inl e) \<Rightarrow> None
                   | (m2, Inr segs2) \<Rightarrow>
                       Some (False,
                         thrown (writeDocx (docx env) (parsed\<lparr>segments := segs2\<rparr>)
                                   (outputPathOf env j))))))
      else None)"

fun called ::
    "('u, 'c) server_env \<Rightarrow> ('u, 'c) JobState \<Rightarrow> string \<Rightarrow> stage \<Rightarrow> (bool \<times> exn option) option" where
  "called env j up ConvertStage = convertCall env j up"
| "called env j up ParseStage = parseCall env j up"
| "called env j up TranslateStage = translateCall env j up"
| "called env j up QaStage = qaCall env j up"
| "called env j up PackStage = packCall env j up"

text \<open>
  What the \<^verbatim>\<open>catch\<close> block makes of an exception \<open>e\<close> that leaves the \<^verbatim>\<open>try\<close> block with the flag
  \<open>f\<close>: the exception did leave the \<^verbatim>\<open>try\<close> block, the flag is \<open>f\<close> then, and from the job
  and the trace at that moment the run goes on in one of three ways. With the flag set it
  reads the flag and does nothing more. With the flag unset and an exception whose
  properties can be read, it makes the job failed, with the message of the exception, or
  \<^verbatim>\<open>Unknown error\<close> when the message is absent or empty, and stamps the finishing time. With
  the flag unset and \<^verbatim>\<open>null\<close> or \<^verbatim>\<open>undefined\<close> thrown, it leaves the job as it is and the promise
  of \<^verbatim>\<open>processJob\<close> is rejected.
\<close>

definition caught ::
    "('u, 'c) server_env \<Rightarrow> ('u, 'c) JobState \<Rightarrow> string \<Rightarrow> exn \<Rightarrow> bool \<Rightarrow> bool" where
  "caught env j up e f =
     (snd (tryBlock env j up) = Some e \<and>
      cancelled (job (fst (tryBlock env j up))) = f \<and>
      (if f then
         job (processJob env j up) = job (fst (tryBlock env j up)) \<and>
         trace (processJob env j up) = trace (fst (tryBlock env j up)) @ [Checked InCatch True]
       else if hasProperties e then
         job (processJob env j up) =
           (job (fst (tryBlock env j up)))
             \<lparr>status := Error, stepMessage := MsgFailed,
              errorMessage :=
                Some (case message e of
                        None \<Rightarrow> ''Unknown error''
                      | Some m \<Rightarrow> if m = [] then ''Unknown error'' else m),
              finishedAt := Some (Date_now env 1)\<rparr> \<and>
         trace (processJob env j up) =
           trace (fst (tryBlock env j up)) @ [Checked InCatch False, Wrote (job (processJob env j up))]
       else
         job (processJob env j up) = job (fst (tryBlock env j up)) \<and>
         trace (processJob env j up) =
           trace (fst (tryBlock env j up)) @ [Checked InCatch False, Rejected]))"

section \<open>Example runs\<close>

text \<open>
  An environment in which every stage succeeds and no cancellation arrives: a file named
  \<^verbatim>\<open>report.PDF\<close> has the extension \<^verbatim>\<open>.PDF\<close>, any other \<^verbatim>\<open>.docx\<close>; the translation pass sets every
  translation to \<^verbatim>\<open>X\<close> and adds to the usage and cost.
\<close>

definition exampleServer :: "(nat, nat) server_env" where
  "exampleServer =
     \<lparr>docx = exampleEnv,
      path_extname = (\<lambda>name. if name = ''report.PDF'' then ''.PDF'' else ''.docx''),
      path_basename = (\<lambda>name ext. ''report''),
      path_join = (\<lambda>dir name. dir @ ''/'' @ name),
      toLowerCase = (\<lambda>s. if s = ''.PDF'' then ''.pdf'' else s),
      WORK_DIR = ''work'',
      OUTPUT_DIR = ''output'',
      uuidv4 = ''uuid'',
      Date_now = (\<lambda>k. 1000 + int k),
      convertPdfToDocx = (\<lambda>src dst. None),
      translateSegments = (\<lambda>m segs l. ((fst m + 10, snd m + 1), Inr (map (\<lambda>s. s\<lparr>translated := Some ''X''\<rparr>) segs))),
      qaAndRetranslate = (\<lambda>m segs l. (m, Inr segs)),
      cancelDuring = (\<lambda>s. False)\<rparr>"

text \<open>Two jobs as \<^verbatim>\<open>createJob\<close> makes them, for a PDF and for a document.\<close>

definition pdfJob :: "(nat, nat) JobState" where
  "pdfJob = createJob ''job-1'' ''report.PDF'' 0 0"

definition docxJob :: "(nat, nat) JobState" where
  "docxJob = createJob ''job-2'' ''report.docx'' 0 0"

text \<open>
  Variations: a cancellation request that arrives while the document is parsed, or while
  the output is packed; a body that the XML parser rejects with an empty message.
\<close>

definition cancelWhileParsing :: "(nat, nat) server_env" where
  "cancelWhileParsing = exampleServer\<lparr>cancelDuring := (\<lambda>s. s = ParseStage)\<rparr>"

definition cancelWhilePacking :: "(nat, nat) server_env" where
  "cancelWhilePacking = exampleServer\<lparr>cancelDuring := (\<lambda>s. s = PackStage)\<rparr>"



text \<open>
  The environment in which every stage succeeds, except that stage \<open>s\<close> fails with \<open>e\<close>:
  the conversion service, the XML parser, a translation pass, or the packing of the output
  archive. \<open>copyFails e\<close> is the one in which the copy of the uploaded document throws.
  \<open>cancelledDuring s env\<close> is \<open>env\<close> with a cancellation request arriving while stage \<open>s\<close>
  is awaited.
\<close>

definition failingAt :: "stage \<Rightarrow> exn \<Rightarrow> (nat, nat) server_env" where
  "failingAt s e =
     exampleServer
       \<lparr>docx := exampleEnv
          \<lparr>xmlParse := (\<lambda>xml. if s = ParseStage then Inl e else Inr foxDoc),
           generateAsync := (\<lambda>z. if s = PackStage then Inl e else Inr ''PK-out'')\<rparr>,
        convertPdfToDocx := (\<lambda>src dst. if s = ConvertStage then Some e else None),
        translateSegments :=
          (\<lambda>m segs l. if s = TranslateStage then (m, Inl e)
                       else ((fst m + 10, snd m + 1), Inr (map (\<lambda>s. s\<lparr>translated := Some ''X''\<rparr>) segs))),
        qaAndRetranslate := (\<lambda>m segs l. if s = QaStage then (m, Inl e) else (m, Inr segs))\<rparr>"


definition cancelledDuring :: "stage \<Rightarrow> (nat, nat) server_env \<Rightarrow> (nat, nat) server_env" where
  "cancelledDuring s env = env\<lparr>cancelDuring := (\<lambda>t. t = s)\<rparr>"

section \<open>Lemmas about the traversals and the updates\<close>

lemma applyTranslations_append:
  "applyTranslations (xs @ ys) doc = applyTranslations ys (applyTranslations xs doc)"
  by (simp add: applyTranslations_def)

lemma applyTranslations_Cons:
  "applyTranslations (s # ys) doc = applyTranslations ys (distributeTranslation s doc)"
  by (simp add: applyTranslations_def)

lemma trim_Nil: "trim [] = []"
  by (simp add: trim_def)

lemma extract_inv:
  "(\<forall>s \<in> set (fst st). segInv doc s) \<Longrightarrow> 
      (\<forall>s \<in> set (fst (extractSegmentsByParagraph doc p n st)). segInv doc s)"
  "(\<forall>s \<in> set (fst st). segInv doc s) \<Longrightarrow> 
      (\<forall>s \<in> set (fst (extractSegmentsByParagraph_items doc p i items st)). segInv doc s)"
  "(\<forall>s \<in> set (fst st). segInv doc s) \<Longrightarrow> 
      (\<forall>s \<in> set (fst (extractSegmentsByParagraph_keys doc p kvs st)). segInv doc s)"
proof (induction doc p n st and doc p i items st and doc p kvs st
       rule: extractSegmentsByParagraph_extractSegmentsByParagraph_items_extractSegmentsByParagraph_keys.induct)
  case (3 doc p kvs st)
  show ?case
  proof (cases "hasKey ''w:p'' kvs")
    case True
    with "3.prems" show ?thesis by (auto simp: Let_def segInv_def)
  next
    case False
    with 3 show ?thesis by simp
  qed
qed simp_all

lemma pushTextItems_eq:
  "pushTextItems p i items wt = wt @ map ((@) p) (textItems i items)"
  by (induction items arbitrary: i wt) simp_all

lemma collectWtNodes_eq:
  "collectWtNodes p n wt = wt @ map ((@) p) (leavesOf n)"
  "collectWtNodes_items p i items wt = wt @ map ((@) p) (leavesOf_items i items)"
  "collectWtNodes_keys p kvs wt = wt @ map ((@) p) (leavesOf_keys kvs)"
proof (induction p n wt and p i items wt and p kvs wt
       rule: collectWtNodes_collectWtNodes_items_collectWtNodes_keys.induct)
  case (3 p kvs wt)
  show ?case
  proof (cases "hasKey ''w:t'' kvs")
    case True
    then show ?thesis
      by (simp add: pushTextItems_eq split: option.split xnode.split)
  next
    case False
    with 3 show ?thesis by simp
  qed
qed simp_all

lemma textItems_mem:
  "q \<in> set (textItems i items) \<longleftrightarrow> (\<exists>j < length items. q = [Idx (i + j)] \<and> isTextItem (items ! j))"
proof (induction items arbitrary: i)
  case Nil
  then show ?case by simp
next
  case (Cons a items)
  show ?case
  proof
    assume "q \<in> set (textItems i (a # items))"
    then consider "isTextItem a" "q = [Idx i]" | "q \<in> set (textItems (Suc i) items)"
      by (auto split: if_splits)
    then show "\<exists>j<length (a # items). q = [Idx (i + j)] \<and> isTextItem ((a # items) ! j)"
    proof cases
      case 1
      then show ?thesis by (intro exI[of _ 0]) simp
    next
      case 2
      then obtain j where "j < length items" "q = [Idx (Suc i + j)]" "isTextItem (items ! j)"
        using Cons.IH by blast
      then show ?thesis by (intro exI[of _ "Suc j"]) simp
    qed
  next
    assume "\<exists>j<length (a # items). q = [Idx (i + j)] \<and> isTextItem ((a # items) ! j)"
    then obtain j where j: "j < length (a # items)" "q = [Idx (i + j)]" "isTextItem ((a # items) ! j)"
      by blast
    show "q \<in> set (textItems i (a # items))"
    proof (cases j)
      case 0
      with j show ?thesis by simp
    next
      case (Suc j')
      with j have "\<exists>j<length items. q = [Idx (Suc i + j)] \<and> isTextItem (items ! j)"
        by (intro exI[of _ j']) simp
      then show ?thesis using Cons.IH by simp
    qed
  qed
qed

lemma incomparable_sym: "incomparable a b \<Longrightarrow> incomparable b a"
  by (simp add: incomparable_def)

lemma incomparable_Cons [simp]: "incomparable (s # a) (t # b) = (s \<noteq> t \<or> incomparable a b)"
  by (auto simp: incomparable_def)

lemma incomparable_irrefl [simp]: "\<not> incomparable a a"
  by (simp add: incomparable_def)

lemma indep_append:
  "indep (xs @ ys) = (indep xs \<and> indep ys \<and> (\<forall>x \<in> set xs. \<forall>y \<in> set ys. incomparable x y))"
  by (induction xs) auto

lemma indep_map_Cons: "indep (map ((#) s) rs) = indep rs"
  by (induction rs) auto

lemma indep_distinct: "indep rs \<Longrightarrow> distinct rs"
  by (induction rs) auto

lemma indep_textItems:
  "indep (textItems i items) \<and> (\<forall>q \<in> set (textItems i items). \<exists>j. q = [Idx j] \<and> i \<le> j)"
proof (induction items arbitrary: i)
  case Nil
  then show ?case by simp
next
  case (Cons a items)
  have *: "indep (textItems (Suc i) items)"
    "\<forall>q \<in> set (textItems (Suc i) items). \<exists>j. q = [Idx j] \<and> Suc i \<le> j"
    using Cons.IH[of "Suc i"] by simp_all
  from *(2) have "\<forall>q \<in> set (textItems (Suc i) items). incomparable [Idx i] q" by fastforce
  moreover from *(2) have "\<forall>q \<in> set (textItems (Suc i) items). \<exists>j. q = [Idx j] \<and> i \<le> j"
    by fastforce
  ultimately show ?case using *(1) by simp
qed

lemma isLeafAt_Idx [simp]:
  "isLeafAt (Arr items) (Idx i # q) = (i < length items \<and> isLeafAt (items ! i) q)"
  by (simp add: isLeafAt_def)

lemma isLeafAt_Key [simp]:
  "isLeafAt (Obj kvs) (Key k # q) = (case map_of kvs k of None \<Rightarrow> False | Some v \<Rightarrow> isLeafAt v q)"
  by (simp add: isLeafAt_def split: option.split)

lemma isLeafAt_Nil [simp]: "isLeafAt n [] = isTextItem n"
  by (simp add: isLeafAt_def)

lemma goodItems_Nil [simp]: "goodItems i items []" 
  by (simp add: goodItems_def)

lemma goodKeys_Nil [simp]: "goodKeys kvs []" 
  by (simp add: goodKeys_def)

lemma good_Nil [simp]: "good n []" 
  by (simp add: good_def)

lemma good_Arr: "goodItems 0 items rs \<Longrightarrow> good (Arr items) rs"
  by (auto simp: good_def goodItems_def)

lemma good_Obj: "distinct (map fst kvs) \<Longrightarrow> goodKeys kvs rs \<Longrightarrow> good (Obj kvs) rs"
  by (auto simp: good_def goodKeys_def)

lemma goodItems_Cons:
  assumes "good item rs" "goodItems (Suc i) items rs'"
  shows "goodItems i (item # items) (map ((#) (Idx i)) rs @ rs')"
proof -
  have "incomparable (Idx i # a) y" if "y \<in> set rs'" for a y
  proof -
    from that assms(2) obtain j q' where "y = Idx (Suc i + j) # q'"
      unfolding goodItems_def by blast
    then show ?thesis by simp
  qed
  then have "\<forall>x \<in> set (map ((#) (Idx i)) rs). \<forall>y \<in> set rs'. incomparable x y"
    by simp
  moreover have "\<exists>j q'. q = Idx (i + j) # q' \<and> j < length (item # items) \<and> isLeafAt ((item # items) ! j) q'"
    if "q \<in> set rs'" for q
  proof -
    from that assms(2) obtain j q' where "q = Idx (Suc i + j) # q'" "j < length items" "isLeafAt (items ! j) q'"
      unfolding goodItems_def by blast
    then show ?thesis by (intro exI[of _ "Suc j"] exI[of _ q']) simp
  qed
  moreover have "\<exists>j q'. q = Idx (i + j) # q' \<and> j < length (item # items) \<and> isLeafAt ((item # items) ! j) q'"
    if "q \<in> set (map ((#) (Idx i)) rs)" for q
  proof -
    from that assms(1) obtain q' where "q = Idx i # q'" "isLeafAt item q'"
      by (auto simp: good_def)
    then show ?thesis by (intro exI[of _ 0] exI[of _ q']) simp
  qed
  ultimately show ?thesis
    using assms unfolding goodItems_def good_def
    by (simp add: indep_append indep_map_Cons del: set_map) blast
qed

lemma goodKeys_skip: "goodKeys kvs rs \<Longrightarrow> goodKeys (kv # kvs) rs"
  by (fastforce simp: goodKeys_def)

lemma goodKeys_Cons:
  assumes "good v rs" "goodKeys kvs rs'" "key \<notin> fst ` set kvs"
  shows "goodKeys ((key, v) # kvs) (map ((#) (Key key)) rs @ rs')"
proof -
  have "incomparable (Key key # a) y" if "y \<in> set rs'" for a y
  proof -
    from that assms(2) obtain k v' q' where y: "y = Key k # q'" "(k, v') \<in> set kvs"
      unfolding goodKeys_def by blast
    with assms(3) have "k \<noteq> key" by force
    with y show ?thesis by simp
  qed
  then have "\<forall>x \<in> set (map ((#) (Key key)) rs). \<forall>y \<in> set rs'. incomparable x y"
    by simp
  moreover have "\<exists>k v' q'. q = Key k # q' \<and> (k, v') \<in> set ((key, v) # kvs) \<and> isLeafAt v' q'"
    if "q \<in> set rs'" for q
    using that assms(2) unfolding goodKeys_def by fastforce
  moreover have "\<exists>k v' q'. q = Key k # q' \<and> (k, v') \<in> set ((key, v) # kvs) \<and> isLeafAt v' q'"
    if "q \<in> set (map ((#) (Key key)) rs)" for q
    using that assms(1) by (auto simp: good_def)
  ultimately show ?thesis
    using assms unfolding goodKeys_def good_def
    by (simp add: indep_append indep_map_Cons del: set_map) blast
qed

lemma good_textItems:
  assumes "hasKey ''w:t'' kvs" "map_of kvs ''w:t'' = Some (Arr c)"
  shows "good (Obj kvs) (map ((#) (Key ''w:t'')) (textItems 0 c))"
  using assms indep_textItems[of 0 c]
  by (auto simp: good_def indep_map_Cons textItems_mem)

lemma good_leavesOf:
  "uniqueKeys n \<Longrightarrow> good n (leavesOf n)"
  "\<forall>x \<in> set items. uniqueKeys x \<Longrightarrow> goodItems i items (leavesOf_items i items)"
  "distinct (map fst kvs) \<Longrightarrow> \<forall>kv \<in> set kvs. uniqueKeys (snd kv) \<Longrightarrow> goodKeys kvs (leavesOf_keys kvs)"
proof (induction n and i items and kvs rule: leavesOf_leavesOf_items_leavesOf_keys.induct)
  case (1 items)
  then show ?case by (simp add: good_Arr)
next
  case (2 s)
  then show ?case by simp
next
  case (3 kvs)
  show ?case
  proof (cases "hasKey ''w:t'' kvs")
    case True
    then show ?thesis
      by (cases "map_of kvs ''w:t''") (auto simp: good_textItems split: xnode.splits)
  next
    case False
    with 3 show ?thesis by (simp add: good_Obj)
  qed
next
  case (4 i)
  then show ?case by simp
next
  case (5 i item items)
  then show ?case by (simp add: goodItems_Cons)
next
  case 6
  then show ?case by simp
next
  case (7 key v kvs)
  show ?case
  proof (cases "isChildKey key")
    case True
    with 7 show ?thesis by (simp add: goodKeys_Cons)
  next
    case False
    with 7 show ?thesis by (simp add: goodKeys_skip)
  qed
qed

lemma append_snoc_fun: "(@) (p @ [s]) = (@) p \<circ> (#) s"
  by (simp add: fun_eq_iff)

lemma extract_eq:
  "extractSegmentsByParagraph doc p n st = fold (emit doc) (map (map ((@) p)) (parasOf n)) st"
  "extractSegmentsByParagraph_items doc p i items st =
     fold (emit doc) (map (map ((@) p)) (parasOf_items i items)) st"
  "extractSegmentsByParagraph_keys doc p kvs st =
     fold (emit doc) (map (map ((@) p)) (parasOf_keys kvs)) st"
proof (induction doc p n st and doc p i items st and doc p kvs st
       rule: extractSegmentsByParagraph_extractSegmentsByParagraph_items_extractSegmentsByParagraph_keys.induct)
  case (3 doc p kvs st)
  show ?case
  proof (cases "hasKey ''w:p'' kvs")
    case True
    then show ?thesis
      by (cases "map_of kvs ''w:p''") (simp_all add: emit_def Let_def collectWtNodes_eq comp_def)
  next
    case False
    with 3 show ?thesis by simp
  qed
next
  case (5 doc p i item items st)
  then show ?case by (simp add: comp_def)
next
  case (7 doc p key v kvs st)
  then show ?case by (simp add: comp_def)
qed simp_all

lemma fold_emit_wtNodes:
  "map wtNodes (fst (fold (emit doc) wts st)) = map wtNodes (fst st) @ filter (keep doc) wts"
  by (induction wts arbitrary: st) (simp_all add: emit_def keep_def)

lemma fold_emit_counter:
  "snd (fold (emit doc) wts st) = snd st + length (filter (keep doc) wts)"
  by (induction wts arbitrary: st) (simp_all add: emit_def keep_def)

lemma fold_emit_ids:
  "map id_seg (fst (fold (emit doc) wts st)) =
     map id_seg (fst st) @ [snd st ..< snd st + length (filter (keep doc) wts)]"
proof (induction wts arbitrary: st)
  case Nil
  then show ?case by simp
next
  case (Cons wt wts)
  show ?case
  proof (cases "keep doc wt")
    case True
    then have "emit doc wt st = (fst st @ [\<lparr>id_seg = snd st, text_seg = concat (map (getText doc) wt),
         translated = None, wtNodes = wt\<rparr>], snd st + 1)"
      by (simp add: emit_def keep_def)
    moreover have "[snd st ..< snd st + Suc k] = snd st # [Suc (snd st) ..< Suc (snd st) + k]" for k
      by (simp add: upt_conv_Cons)
    ultimately show ?thesis using True
      by (simp add: Cons.IH del: upt_Suc)
  next
    case False
    then have "emit doc wt st = st" by (auto simp: emit_def keep_def)
    with False show ?thesis by (simp add: Cons.IH)
  qed
qed

lemma good_Key:
  "map_of kvs k = Some v \<Longrightarrow> good v rs \<Longrightarrow> good (Obj kvs) (map ((#) (Key k)) rs)"
  by (auto simp: good_def indep_map_Cons)

lemma concat_map_map_Cons: "concat (map (map ((#) s)) xss) = map ((#) s) (concat xss)"
  by (simp add: map_concat)

lemma good_parasOf:
  "uniqueKeys n \<Longrightarrow> good n (concat (parasOf n))"
  "\<forall>x \<in> set items. uniqueKeys x \<Longrightarrow> goodItems i items (concat (parasOf_items i items))"
  "distinct (map fst kvs) \<Longrightarrow> \<forall>kv \<in> set kvs. uniqueKeys (snd kv) \<Longrightarrow>
     goodKeys kvs (concat (parasOf_keys kvs))"
proof (induction n and i items and kvs rule: parasOf_parasOf_items_parasOf_keys.induct)
  case (1 items)
  then show ?case by (simp add: good_Arr)
next
  case (2 s)
  then show ?case by simp
next
  case (3 kvs)
  show ?case
  proof (cases "hasKey ''w:p'' kvs")
    case True
    show ?thesis
    proof (cases "map_of kvs ''w:p''")
      case None
      with True show ?thesis by simp
    next
      case (Some para)
      then have "(''w:p'', para) \<in> set kvs" by (rule map_of_SomeD)
      with "3.prems" have "uniqueKeys para" by auto
      then have "good para (leavesOf para)" by (rule good_leavesOf(1))
      with Some True show ?thesis by (simp add: good_Key)
    qed
  next
    case False
    with 3 show ?thesis by (simp add: good_Obj)
  qed
next
  case (4 i)
  then show ?case by simp
next
  case (5 i item items)
  then show ?case by (simp add: goodItems_Cons concat_map_map_Cons)
next
  case 6
  then show ?case by simp
next
  case (7 key v kvs)
  show ?case
  proof (cases "isChildKey key")
    case True
    with 7 show ?thesis by (simp add: goodKeys_Cons concat_map_map_Cons)
  next
    case False
    with 7 show ?thesis by (simp add: goodKeys_skip)
  qed
qed

lemma indep_concat_filter: "indep (concat xss) \<Longrightarrow> indep (concat (filter P xss))"
  by (induction xss) (auto simp: indep_append)

lemma good_concat_filter: "good n (concat xss) \<Longrightarrow> good n (concat (filter P xss))"
  by (auto simp: good_def indep_concat_filter)

lemma append_Nil_fun: "map (map ((@) [])) xss = xss"
  by (induction xss) simp_all

lemma extracted_refs_good:
  assumes "uniqueKeys doc"
  shows "good doc (concat (map wtNodes (fst (extractSegmentsByParagraph doc [] doc ([], 0)))))"
proof -
  have "map wtNodes (fst (extractSegmentsByParagraph doc [] doc ([], 0))) = filter (keep doc) (parasOf doc)"
    by (simp add: extract_eq fold_emit_wtNodes append_Nil_fun)
  moreover have "good doc (concat (parasOf doc))"
    using assms by (rule good_parasOf(1))
  ultimately show ?thesis by (simp add: good_concat_filter)
qed

lemma map_of_map_entry:
  "map_of (AList.map_entry k f kvs) k' = (if k' = k then map_option f (map_of kvs k) else map_of kvs k')"
  by (induction kvs) auto

lemma deref_updateAt_same:
  "deref (updateAt r f n) r = map_option f (deref n r)"
proof (induction r arbitrary: n)
  case Nil
  then show ?case by simp
next
  case (Cons s r)
  show ?case
  proof (cases s)
    case (Idx i)
    then show ?thesis using Cons.IH by (cases n) simp_all
  next
    case (Key k)
    then show ?thesis using Cons.IH
      by (cases n) (simp_all add: map_of_map_entry split: option.split)
  qed
qed

lemma deref_updateAt_other:
  "incomparable r q \<Longrightarrow> deref (updateAt r f n) q = deref n q"
proof (induction r arbitrary: n q)
  case Nil
  then show ?case by (simp add: incomparable_def)
next
  case (Cons s r)
  from Cons.prems obtain t q' where q: "q = t # q'"
    by (cases q) (auto simp: incomparable_def)
  with Cons.prems have st: "s \<noteq> t \<or> incomparable r q'" by simp
  show ?case
  proof (cases s)
    case (Idx i)
    show ?thesis
    proof (cases n)
      case (Arr items)
      with Idx q st Cons.IH show ?thesis
        by (cases t) (auto simp: nth_list_update)
    qed (simp_all add: Idx)
  next
    case (Key k)
    show ?thesis
    proof (cases n)
      case (Obj kvs)
      with Key q st Cons.IH show ?thesis
        by (cases t) (auto simp: map_of_map_entry split: option.split)
    qed (simp_all add: Key)
  qed
qed

lemma hasKey_map [simp]: "hasKey k (map (\<lambda>kv. (fst kv, g kv)) kvs) = hasKey k kvs"
  by (simp add: hasKey_def comp_def)

lemma map_of_map_snd:
  "map_of (map (\<lambda>kv. (fst kv, g (fst kv) (snd kv))) kvs) k = map_option (g k) (map_of kvs k)"
  by (induction kvs) auto

lemma isTextItem_markup [simp]: "isTextItem (markup x) = isTextItem x"
  by (cases x) (simp_all add: isTextItem_def)

lemma textItems_markup [simp]: "textItems i (map markup items) = textItems i items"
  by (induction items arbitrary: i) simp_all

lemma leavesOf_markup:
  "leavesOf (markup n) = leavesOf n"
  "leavesOf_items i (map markup items) = leavesOf_items i items"
  "leavesOf_keys (map (\<lambda>kv. (fst kv, if fst kv = ''#text'' then Str [] else markup (snd kv))) kvs)
     = leavesOf_keys kvs"
proof (induction n and i items and kvs rule: leavesOf_leavesOf_items_leavesOf_keys.induct)
  case (3 kvs)
  show ?case
  proof (cases "hasKey ''w:t'' kvs")
    case True
    have "map_of (map (\<lambda>kv. (fst kv, if fst kv = ''#text'' then Str [] else markup (snd kv))) kvs) ''w:t''
        = map_option markup (map_of kvs ''w:t'')"
      using map_of_map_snd[of "\<lambda>k v. if k = ''#text'' then Str [] else markup v" kvs "''w:t''"]
      by simp
    with True show ?thesis
      by (cases "map_of kvs ''w:t''") (auto split: xnode.splits)
  next
    case False
    with 3 show ?thesis by simp
  qed
next
  case (7 key v kvs)
  then show ?case by (auto simp: isChildKey_def)
qed simp_all

lemma collectWtNodes_markup: "collectWtNodes p (markup n) wt = collectWtNodes p n wt"
  by (simp add: collectWtNodes_eq leavesOf_markup)

lemma markup_setProp:
  "hasKey ''#text'' kvs \<Longrightarrow> markup (setProp ''#text'' v (Obj kvs)) = markup (Obj kvs)"
  unfolding setProp_def hasKey_def
  by (induction kvs) auto

lemma markup_map_entry:
  assumes "\<And>v. map_of kvs k = Some v \<Longrightarrow> markup (g v) = markup v"
  shows "markup (Obj (AList.map_entry k g kvs)) = markup (Obj kvs)"
  using assms by (induction kvs) auto

lemma markup_updateAt:
  "(\<And>m. deref n r = Some m \<Longrightarrow> markup (f m) = markup m) \<Longrightarrow> markup (updateAt r f n) = markup n"
proof (induction r arbitrary: n)
  case Nil
  then show ?case by simp
next
  case (Cons s r)
  show ?case
  proof (cases s)
    case (Idx i)
    show ?thesis
    proof (cases n)
      case (Arr items)
      show ?thesis
      proof (cases "i < length items")
        case True
        with Arr Idx Cons.prems have "markup (updateAt r f (items ! i)) = markup (items ! i)"
          by (intro Cons.IH) simp
        with True Arr Idx show ?thesis
          by (simp add: map_update) (metis list_update_id map_update)
      next
        case False
        with Arr Idx show ?thesis by simp
      qed
    qed (simp_all add: Idx)
  next
    case (Key k)
    show ?thesis
    proof (cases n)
      case (Obj kvs)
      have "markup (updateAt r f v) = markup v" if "map_of kvs k = Some v" for v
        using that Obj Key Cons.prems by (intro Cons.IH) simp
      then have "markup (Obj (AList.map_entry k (updateAt r f) kvs)) = markup (Obj kvs)"
        by (rule markup_map_entry)
      with Obj Key show ?thesis by simp
    qed (simp_all add: Key)
  qed
qed

lemma isLeafAt_deref: "isLeafAt n r \<Longrightarrow> \<exists>kvs. deref n r = Some (Obj kvs) \<and> hasKey ''#text'' kvs"
  by (auto simp: isLeafAt_def isTextItem_def split: option.splits xnode.splits)

lemma markup_setText: "isLeafAt n r \<Longrightarrow> markup (setText r s n) = markup n"
  unfolding setText_def
  by (rule markup_updateAt) (auto dest!: isLeafAt_deref simp: markup_setProp)

lemma getText_setText_same: "isLeafAt n r \<Longrightarrow> getText (setText r s n) r = s"
  by (auto dest!: isLeafAt_deref
           simp: getText_def setText_def deref_updateAt_same setProp_def update_conv')

lemma deref_setText_other: "incomparable r q \<Longrightarrow> deref (setText r s n) q = deref n q"
  by (simp add: setText_def deref_updateAt_other)

lemma getText_cong: "deref n q = deref n' q \<Longrightarrow> getText n q = getText n' q"
  by (simp add: getText_def)

lemma isLeafAt_cong: "deref n q = deref n' q \<Longrightarrow> isLeafAt n q = isLeafAt n' q"
  by (simp add: isLeafAt_def)

lemma deref_fold_setText_other:
  "\<forall>r \<in> set rs. incomparable r q \<Longrightarrow> deref (fold (\<lambda>r. setText r s) rs n) q = deref n q"
  by (induction rs arbitrary: n) (simp_all add: deref_setText_other)

lemma good_Cons: "good n (r # rs) = (isLeafAt n r \<and> (\<forall>q \<in> set rs. incomparable r q) \<and> good n rs)"
  by (auto simp: good_def)

lemma good_cong: "(\<And>q. q \<in> set rs \<Longrightarrow> deref n' q = deref n q) \<Longrightarrow> good n rs \<Longrightarrow> good n' rs"
  by (auto simp: good_def isLeafAt_def)

lemma good_setText: "good n (r # rs) \<Longrightarrow> good (setText r s n) rs"
  by (rule good_cong[where n = n]) (auto simp: good_Cons deref_setText_other)

lemma markup_fold_setText:
  "good n rs \<Longrightarrow> markup (fold (\<lambda>r. setText r s) rs n) = markup n"
proof (induction rs arbitrary: n)
  case Nil
  then show ?case by simp
next
  case (Cons r rs)
  from Cons.prems have "good (setText r s n) rs" by (rule good_setText)
  then have "markup (fold (\<lambda>r. setText r s) rs (setText r s n)) = markup (setText r s n)"
    by (rule Cons.IH)
  with Cons.prems show ?case by (simp add: good_Cons markup_setText)
qed

lemma getText_fold_setText:
  "good n rs \<Longrightarrow> q \<in> set rs \<Longrightarrow> getText (fold (\<lambda>r. setText r s) rs n) q = s"
proof (induction rs arbitrary: n)
  case Nil
  then show ?case by simp
next
  case (Cons r rs)
  from Cons.prems(1) have g: "good (setText r s n) rs" by (rule good_setText)
  show ?case
  proof (cases "q \<in> set rs")
    case True
    with g Cons.IH show ?thesis by simp
  next
    case False
    with Cons.prems have [simp]: "q = r" by simp
    from Cons.prems(1) have "\<forall>r' \<in> set rs. incomparable r' r"
      by (auto simp: good_Cons intro: incomparable_sym)
    then have "deref (fold (\<lambda>r. setText r s) rs (setText r s n)) r = deref (setText r s n) r"
      by (rule deref_fold_setText_other)
    then have "getText (fold (\<lambda>r. setText r s) rs (setText r s n)) r = getText (setText r s n) r"
      by (rule getText_cong)
    with Cons.prems(1) show ?thesis by (simp add: good_Cons getText_setText_same)
  qed
qed

lemma distributeTranslation_Some:
  assumes "translated seg = Some tr" "tr \<noteq> []" "wtNodes seg = r # rs"
  shows "distributeTranslation seg n = fold (\<lambda>wt. setText wt []) rs (setText r tr n)"
  using assms by (cases rs) (simp_all add: distributeTranslation_def)

lemma distributeTranslation_cases:
  obtains (unchanged) "distributeTranslation seg n = n"
  | (written) tr r rs where "translated seg = Some tr" "tr \<noteq> []" "wtNodes seg = r # rs"
      "distributeTranslation seg n = fold (\<lambda>wt. setText wt []) rs (setText r tr n)"
proof (cases "translated seg")
  case None
  then show ?thesis using unchanged by (simp add: distributeTranslation_def)
next
  case (Some tr)
  show ?thesis
  proof (cases "tr = [] \<or> wtNodes seg = []")
    case True
    with Some show ?thesis using unchanged by (auto simp: distributeTranslation_def)
  next
    case False
    then obtain r rs where "wtNodes seg = r # rs" by (cases "wtNodes seg") auto
    with Some False show ?thesis using written distributeTranslation_Some by blast
  qed
qed

lemma deref_distributeTranslation_other:
  assumes "\<forall>r \<in> set (wtNodes seg). incomparable r q"
  shows "deref (distributeTranslation seg n) q = deref n q"
proof (cases seg n rule: distributeTranslation_cases)
  case unchanged
  then show ?thesis by simp
next
  case (written tr r rs)
  with assms have "incomparable r q" "\<forall>r' \<in> set rs. incomparable r' q" by simp_all
  then show ?thesis
    by (simp add: written(4) deref_fold_setText_other deref_setText_other)
qed

lemma markup_distributeTranslation:
  assumes "good n (wtNodes seg)"
  shows "markup (distributeTranslation seg n) = markup n"
proof (cases seg n rule: distributeTranslation_cases)
  case unchanged
  then show ?thesis by simp
next
  case (written tr r rs)
  with assms have g: "good n (r # rs)" by simp
  then have "good (setText r tr n) rs" by (rule good_setText)
  then have "markup (fold (\<lambda>wt. setText wt []) rs (setText r tr n)) = markup (setText r tr n)"
    by (rule markup_fold_setText)
  with g show ?thesis by (simp add: written(4) good_Cons markup_setText)
qed

lemma getText_distributeTranslation:
  assumes "good n (wtNodes seg)" "translated seg = Some tr" "tr \<noteq> []"
  shows "wtNodes seg \<noteq> [] \<longrightarrow>
           getText (distributeTranslation seg n) (hd (wtNodes seg)) = tr \<and>
           (\<forall>q \<in> set (tl (wtNodes seg)). getText (distributeTranslation seg n) q = [])"
proof (cases "wtNodes seg")
  case Nil
  then show ?thesis by simp
next
  case (Cons r rs)
  with assms have g: "good n (r # rs)" by simp
  then have g': "good (setText r tr n) rs" by (rule good_setText)
  have d: "distributeTranslation seg n = fold (\<lambda>wt. setText wt []) rs (setText r tr n)"
    using assms(2,3) Cons by (rule distributeTranslation_Some)
  from g have "\<forall>r' \<in> set rs. incomparable r' r"
    by (auto simp: good_Cons intro: incomparable_sym)
  then have "deref (fold (\<lambda>wt. setText wt []) rs (setText r tr n)) r = deref (setText r tr n) r"
    by (rule deref_fold_setText_other)
  then have "getText (fold (\<lambda>wt. setText wt []) rs (setText r tr n)) r = getText (setText r tr n) r"
    by (rule getText_cong)
  with g have "getText (distributeTranslation seg n) r = tr"
    by (simp add: d good_Cons getText_setText_same)
  moreover have "\<forall>q \<in> set rs. getText (distributeTranslation seg n) q = []"
    using g' by (simp add: d getText_fold_setText)
  ultimately show ?thesis using Cons by simp
qed

lemma deref_applyTranslations_other:
  "\<forall>r \<in> set (concat (map wtNodes segs)). incomparable r q \<Longrightarrow>
     deref (applyTranslations segs n) q = deref n q"
proof (induction segs arbitrary: n)
  case Nil
  then show ?case by (simp add: applyTranslations_def)
next
  case (Cons seg segs)
  then show ?case
    by (simp add: applyTranslations_Cons deref_distributeTranslation_other)
qed

lemma good_append: 
  "good n (xs @ ys) = (good n xs \<and> good n ys \<and> (\<forall>x \<in> set xs. \<forall>y \<in> set ys. incomparable x y))"
  by (auto simp: good_def indep_append)

lemma markup_applyTranslations:
  "good n (concat (map wtNodes segs)) \<Longrightarrow> markup (applyTranslations segs n) = markup n"
proof (induction segs arbitrary: n)
  case Nil
  then show ?case by (simp add: applyTranslations_def)
next
  case (Cons seg segs)
  from Cons.prems have g: "good n (wtNodes seg)" "good n (concat (map wtNodes segs))"
    and i: "\<forall>x \<in> set (wtNodes seg). \<forall>y \<in> set (concat (map wtNodes segs)). incomparable x y"
    by (simp_all add: good_append)
  have "good (distributeTranslation seg n) (concat (map wtNodes segs))"
  proof (rule good_cong[OF _ g(2)])
    fix q assume "q \<in> set (concat (map wtNodes segs))"
    with i have "\<forall>r \<in> set (wtNodes seg). incomparable r q" by blast
    then show "deref (distributeTranslation seg n) q = deref n q"
      by (rule deref_distributeTranslation_other)
  qed
  then have "markup (applyTranslations segs (distributeTranslation seg n)) = markup (distributeTranslation seg n)"
    by (rule Cons.IH)
  with g(1) show ?case by (simp add: applyTranslations_Cons markup_distributeTranslation)
qed

lemma getText_applyTranslations:
  assumes g: "good n (concat (map wtNodes segs))"
    and s: "seg \<in> set segs" "translated seg = Some tr" "tr \<noteq> []" "wtNodes seg \<noteq> []"
  shows "getText (applyTranslations segs n) (hd (wtNodes seg)) = tr \<and>
         (\<forall>q \<in> set (tl (wtNodes seg)). getText (applyTranslations segs n) q = [])"
proof -
  from s(1) obtain pre post where segs: "segs = pre @ seg # post"
    by (auto simp: in_set_conv_decomp)
  define n1 where "n1 = applyTranslations pre n"
  define n2 where "n2 = distributeTranslation seg n1"
  have fin: "applyTranslations segs n = applyTranslations post n2"
    by (simp add: segs n1_def n2_def applyTranslations_append applyTranslations_Cons)
  from g have gs: "good n (wtNodes seg)"
    and pre: "\<forall>x \<in> set (concat (map wtNodes pre)). \<forall>y \<in> set (wtNodes seg). incomparable x y"
    and post: "\<forall>x \<in> set (wtNodes seg). \<forall>y \<in> set (concat (map wtNodes post)). incomparable x y"
    by (simp_all add: segs good_append)
  have "good n1 (wtNodes seg)"
  proof (rule good_cong[OF _ gs])
    fix q assume "q \<in> set (wtNodes seg)"
    with pre have "\<forall>r \<in> set (concat (map wtNodes pre)). incomparable r q" by blast
    then show "deref n1 q = deref n q"
      unfolding n1_def by (rule deref_applyTranslations_other)
  qed
  with s have t2: "getText n2 (hd (wtNodes seg)) = tr"
      "\<forall>q \<in> set (tl (wtNodes seg)). getText n2 q = []"
    using getText_distributeTranslation[of n1 seg tr] by (simp_all add: n2_def)
  have keep: "getText (applyTranslations post n2) q = getText n2 q" if "q \<in> set (wtNodes seg)" for q
  proof (rule getText_cong, rule deref_applyTranslations_other)
    from that post show "\<forall>r \<in> set (concat (map wtNodes post)). incomparable r q"
      by (blast intro: incomparable_sym)
  qed
  from s(4) have "hd (wtNodes seg) \<in> set (wtNodes seg)" by simp
  moreover have "set (tl (wtNodes seg)) \<subseteq> set (wtNodes seg)"
    by (cases "wtNodes seg") auto
  ultimately show ?thesis using t2 keep by (auto simp: fin)
qed

section \<open>Document order and the paragraphs of a document\<close>


lemma leavesOf_items_under: "leavesOf_items i items = underItems leavesOf i items"
  by (induction items arbitrary: i) simp_all

lemma leavesOf_keys_under: "leavesOf_keys kvs = underKeys leavesOf kvs"
  by (induction kvs) auto

lemma paraPaths_items_under: "paraPaths_items i items = underItems paraPaths i items"
  by (induction items arbitrary: i) simp_all

lemma paraPaths_keys_under: "paraPaths_keys kvs = underKeys paraPaths kvs"
  by (induction kvs) auto

lemma mem_underItems:
  "p \<in> set (underItems f i items) \<longleftrightarrow>
     (\<exists>j q. p = Idx (i + j) # q \<and> j < length items \<and> q \<in> set (f (items ! j)))"
proof (induction items arbitrary: i)
  case Nil
  then show ?case by simp
next
  case (Cons item items)
  show ?case
  proof
    assume "p \<in> set (underItems f i (item # items))"
    then consider "p \<in> (#) (Idx i) ` set (f item)" | "p \<in> set (underItems f (Suc i) items)"
      by auto
    then show "\<exists>j q. p = Idx (i + j) # q \<and> j < length (item # items) \<and> q \<in> set (f ((item # items) ! j))"
    proof cases
      case 1
      then obtain q where "p = Idx (i + 0) # q" "q \<in> set (f item)" by auto
      then show ?thesis by (intro exI[of _ 0] exI[of _ q]) simp
    next
      case 2
      then obtain j q where "p = Idx (Suc i + j) # q" "j < length items" "q \<in> set (f (items ! j))"
        using Cons.IH by blast
      then show ?thesis by (intro exI[of _ "Suc j"] exI[of _ q]) simp
    qed
  next
    assume "\<exists>j q. p = Idx (i + j) # q \<and> j < length (item # items) \<and> q \<in> set (f ((item # items) ! j))"
    then obtain j q where jq: "p = Idx (i + j) # q" "j < length (item # items)"
      "q \<in> set (f ((item # items) ! j))" by blast
    show "p \<in> set (underItems f i (item # items))"
    proof (cases j)
      case 0
      with jq show ?thesis by simp
    next
      case (Suc k)
      with jq have "p = Idx (Suc i + k) # q" "k < length items" "q \<in> set (f (items ! k))" by simp_all
      then have "p \<in> set (underItems f (Suc i) items)" using Cons.IH by blast
      then show ?thesis by simp
    qed
  qed
qed

lemma mem_underKeys:
  "p \<in> set (underKeys f kvs) \<longleftrightarrow>
     (\<exists>k v q. p = Key k # q \<and> (k, v) \<in> set kvs \<and> isChildKey k \<and> q \<in> set (f v))"
proof (induction kvs)
  case Nil
  then show ?case by simp
next
  case (Cons kv kvs)
  obtain key v where kv: "kv = (key, v)" by (cases kv)
  show ?case unfolding kv using Cons.IH by auto
qed

lemma keyBefore_head: "keyBefore k l (k # xs) = (l \<in> set xs)"
  by simp

lemma keyBefore_skip: "x \<noteq> k \<Longrightarrow> x \<noteq> l \<Longrightarrow> keyBefore k l (x # xs) = keyBefore k l xs"
  by simp

lemma docBefore_same: "getChild n s = Some c \<Longrightarrow> docBefore n (s # a) (s # b) = docBefore c a b"
  by simp

lemma docBefore_append: "deref n q = Some c \<Longrightarrow> docBefore n (q @ a) (q @ b) = docBefore c a b"
  by (induction q arbitrary: n) (auto split: option.splits)

lemma sorted_wrt_map_Cons:
  "getChild n s = Some c \<Longrightarrow> sorted_wrt (docBefore n) (map ((#) s) rs) = sorted_wrt (docBefore c) rs"
  by (simp add: sorted_wrt_map)

lemma sorted_underItems:
  assumes "\<forall>x \<in> set items. sorted_wrt (docBefore x) (f x)"
  shows "sorted_wrt (docBefore (Arr (pre @ items))) (underItems f (length pre) items)"
  using assms
proof (induction items arbitrary: pre)
  case Nil
  then show ?case by simp
next
  case (Cons item items)
  have g: "getChild (Arr (pre @ item # items)) (Idx (length pre)) = Some item"
    by simp
  have a: "sorted_wrt (docBefore (Arr (pre @ item # items))) (map ((#) (Idx (length pre))) (f item))"
    using Cons.prems by (simp add: sorted_wrt_map_Cons[OF g])
  have b: "sorted_wrt (docBefore (Arr ((pre @ [item]) @ items))) (underItems f (length (pre @ [item])) items)"
    using Cons.prems by (intro Cons.IH) simp
  have c: "docBefore (Arr (pre @ item # items)) x y"
    if "x \<in> set (map ((#) (Idx (length pre))) (f item))" "y \<in> set (underItems f (Suc (length pre)) items)" for x y
  proof -
    from that(1) obtain a where x: "x = Idx (length pre) # a" by auto
    from that(2) obtain j q where y: "y = Idx (Suc (length pre) + j) # q"
      using mem_underItems[of y f "Suc (length pre)" items] by blast
    show ?thesis unfolding x y by simp
  qed
  from a b c show ?case by (simp add: sorted_wrt_append)
qed

lemma docBefore_Obj_skip:
  assumes "key \<noteq> k" "key \<noteq> l"
  shows "docBefore (Obj ((key, v) # kvs)) (Key k # a) (Key l # b) = docBefore (Obj kvs) (Key k # a) (Key l # b)"
  using assms by simp

lemma sorted_underKeys:
  assumes "distinct (map fst kvs)"
    "\<forall>kv \<in> set kvs. isChildKey (fst kv) \<longrightarrow> sorted_wrt (docBefore (snd kv)) (f (snd kv))"
  shows "sorted_wrt (docBefore (Obj kvs)) (underKeys f kvs)"
  using assms
proof (induction kvs)
  case Nil
  then show ?case by simp
next
  case (Cons kv kvs)
  obtain key v where kv: "kv = (key, v)" by (cases kv)
  from Cons.prems have d: "key \<notin> fst ` set kvs" "distinct (map fst kvs)"
    and s: "isChildKey key \<longrightarrow> sorted_wrt (docBefore v) (f v)"
      "\<forall>kv \<in> set kvs. isChildKey (fst kv) \<longrightarrow> sorted_wrt (docBefore (snd kv)) (f (snd kv))"
    by (simp_all add: kv)
  have heads: "\<exists>k q. y = Key k # q \<and> k \<in> fst ` set kvs" if "y \<in> set (underKeys f kvs)" for y
    using that mem_underKeys[of y f kvs] by force
  have a: "isChildKey key \<longrightarrow> sorted_wrt (docBefore (Obj ((key, v) # kvs))) (map ((#) (Key key)) (f v))"
    using s(1) by (simp add: sorted_wrt_map)
  have "sorted_wrt (docBefore (Obj kvs)) (underKeys f kvs)"
    using d(2) s(2) by (rule Cons.IH)
  then have b: "sorted_wrt (docBefore (Obj ((key, v) # kvs))) (underKeys f kvs)"
  proof (rule sorted_wrt_mono_rel[rotated])
    fix x y assume "x \<in> set (underKeys f kvs)" "y \<in> set (underKeys f kvs)" "docBefore (Obj kvs) x y"
    moreover from this(1) obtain k a where "x = Key k # a" "k \<in> fst ` set kvs" using heads by blast
    moreover from \<open>y \<in> set (underKeys f kvs)\<close> obtain l b where "y = Key l # b" "l \<in> fst ` set kvs" using heads by blast
    moreover have "key \<noteq> k" "key \<noteq> l"
      using d(1) \<open>k \<in> fst ` set kvs\<close> \<open>l \<in> fst ` set kvs\<close> by auto
    ultimately show "docBefore (Obj ((key, v) # kvs)) x y"
      by (auto split: if_splits)
  qed
  have c: "docBefore (Obj ((key, v) # kvs)) x y"
    if "x \<in> set (map ((#) (Key key)) (f v))" "y \<in> set (underKeys f kvs)" for x y
  proof -
    from that(1) obtain a where x: "x = Key key # a" by auto
    from that(2) obtain l b where y: "y = Key l # b" "l \<in> fst ` set kvs" using heads by blast
    with d(1) have "l \<noteq> key" by auto
    with y(2) show ?thesis unfolding x y(1) by simp
  qed
  from a b c show ?case by (simp add: kv sorted_wrt_append)
qed

lemma sorted_textItems: "sorted_wrt (docBefore (Arr c)) (textItems i items)"
proof (induction items arbitrary: i)
  case Nil
  then show ?case by simp
next
  case (Cons item items)
  have "docBefore (Arr c) [Idx i] y" if "y \<in> set (textItems (Suc i) items)" for y
  proof -
    from that obtain j where "y = [Idx (Suc i + j)]" by (auto simp: textItems_mem)
    then show ?thesis by simp
  qed
  with Cons.IH[of "Suc i"] show ?case by (simp add: sorted_wrt_append)
qed

lemma sorted_leavesOf:
  fixes i :: nat
  shows "uniqueKeys n \<Longrightarrow> sorted_wrt (docBefore n) (leavesOf n)"
    and "\<forall>x \<in> set items. uniqueKeys x \<Longrightarrow> \<forall>x \<in> set items. sorted_wrt (docBefore x) (leavesOf x)"
    and "\<forall>kv \<in> set kvs. uniqueKeys (snd kv) \<Longrightarrow>
       \<forall>kv \<in> set kvs. isChildKey (fst kv) \<longrightarrow> sorted_wrt (docBefore (snd kv)) (leavesOf (snd kv))"
proof (induction n and i items and kvs rule: leavesOf_leavesOf_items_leavesOf_keys.induct)
  case (1 items)
  then have "\<forall>x \<in> set items. sorted_wrt (docBefore x) (leavesOf x)" by simp
  then have "sorted_wrt (docBefore (Arr ([] @ items))) (underItems leavesOf (length ([] :: xnode list)) items)"
    by (rule sorted_underItems)
  then show ?case by (simp add: leavesOf_items_under)
next
  case (2 s)
  then show ?case by simp
next
  case (3 kvs)
  show ?case
  proof (cases "hasKey ''w:t'' kvs")
    case True
    show ?thesis
    proof (cases "map_of kvs ''w:t''")
      case None
      with True show ?thesis by simp
    next
      case (Some c)
      then have g: "getChild (Obj kvs) (Key ''w:t'') = Some c" by simp
      show ?thesis
      proof (cases c)
        case (Arr wtContent)
        with True Some show ?thesis
          by (simp add: sorted_wrt_map_Cons[OF g] sorted_textItems)
      qed (use True Some in simp_all)
    qed
  next
    case False
    with 3 have "\<forall>kv \<in> set kvs. isChildKey (fst kv) \<longrightarrow> sorted_wrt (docBefore (snd kv)) (leavesOf (snd kv))"
      by simp
    moreover from "3.prems" have "distinct (map fst kvs)" by simp
    ultimately have "sorted_wrt (docBefore (Obj kvs)) (underKeys leavesOf kvs)"
      by (intro sorted_underKeys)
    with False show ?thesis by (simp add: leavesOf_keys_under)
  qed
next
  case (4 i)
  then show ?case by simp
next
  case (5 i item items)
  then show ?case by simp
next
  case 6
  then show ?case by simp
next
  case (7 key v kvs)
  then show ?case by simp
qed

lemma sorted_paraPaths:
  fixes i :: nat
  shows "uniqueKeys n \<Longrightarrow> sorted_wrt (docBefore n) (paraPaths n)"
    and "\<forall>x \<in> set items. uniqueKeys x \<Longrightarrow> \<forall>x \<in> set items. sorted_wrt (docBefore x) (paraPaths x)"
    and "\<forall>kv \<in> set kvs. uniqueKeys (snd kv) \<Longrightarrow>
       \<forall>kv \<in> set kvs. isChildKey (fst kv) \<longrightarrow> sorted_wrt (docBefore (snd kv)) (paraPaths (snd kv))"
proof (induction n and i items and kvs rule: paraPaths_paraPaths_items_paraPaths_keys.induct)
  case (1 items)
  then have "\<forall>x \<in> set items. sorted_wrt (docBefore x) (paraPaths x)" by simp
  then have "sorted_wrt (docBefore (Arr ([] @ items))) (underItems paraPaths (length ([] :: xnode list)) items)"
    by (rule sorted_underItems)
  then show ?case by (simp add: paraPaths_items_under)
next
  case (2 s)
  then show ?case by simp
next
  case (3 kvs)
  show ?case
  proof (cases "hasKey ''w:p'' kvs")
    case True
    then show ?thesis by simp
  next
    case False
    with 3 have "\<forall>kv \<in> set kvs. isChildKey (fst kv) \<longrightarrow> sorted_wrt (docBefore (snd kv)) (paraPaths (snd kv))"
      by simp
    moreover from "3.prems" have "distinct (map fst kvs)" by simp
    ultimately have "sorted_wrt (docBefore (Obj kvs)) (underKeys paraPaths kvs)"
      by (intro sorted_underKeys)
    with False show ?thesis by (simp add: paraPaths_keys_under)
  qed
next
  case (4 i)
  then show ?case by simp
next
  case (5 i item items)
  then show ?case by simp
next
  case 6
  then show ?case by simp
next
  case (7 key v kvs)
  then show ?case by simp
qed

lemma outermost_Arr:
  "outermost (Arr items) p \<longleftrightarrow> (\<exists>j q. p = Idx j # q \<and> j < length items \<and> outermost (items ! j) q)"
proof (cases p)
  case Nil
  then show ?thesis by (simp add: isParagraph_def)
next
  case (Cons s q)
  then show ?thesis by (cases s) (simp_all add: isParagraph_def isElementStep_def)
qed

lemma outermost_Obj:
  assumes "\<not> hasKey ''w:p'' kvs" "distinct (map fst kvs)"
  shows "outermost (Obj kvs) p \<longleftrightarrow>
           (\<exists>k v q. p = Key k # q \<and> (k, v) \<in> set kvs \<and> isChildKey k \<and> outermost v q)"
proof (cases p)
  case Nil
  with assms show ?thesis by (simp add: isParagraph_def)
next
  case (Cons s q)
  show ?thesis
  proof (cases s)
    case (Idx i)
    with Cons assms show ?thesis by (simp add: isParagraph_def)
  next
    case (Key k)
    have m: "((k, v) \<in> set kvs) = (map_of kvs k = Some v)" for v
      using assms(2) by simp
    from Key Cons assms(1) show ?thesis
      by (auto simp: m isParagraph_def isElementStep_def split: option.splits)
  qed
qed

lemma mem_paraPaths:
  fixes i :: nat
  shows "uniqueKeys n \<Longrightarrow> (p \<in> set (paraPaths n)) = outermost n p"
    and "\<forall>x \<in> set items. uniqueKeys x \<Longrightarrow> \<forall>x \<in> set items. \<forall>q. (q \<in> set (paraPaths x)) = outermost x q"
    and "\<forall>kv \<in> set kvs. uniqueKeys (snd kv) \<Longrightarrow>
       \<forall>kv \<in> set kvs. isChildKey (fst kv) \<longrightarrow> (\<forall>q. (q \<in> set (paraPaths (snd kv))) = outermost (snd kv) q)"
proof (induction n and i items and kvs arbitrary: p rule: paraPaths_paraPaths_items_paraPaths_keys.induct)
  case (1 items)
  then have ih: "\<forall>x \<in> set items. \<forall>q. (q \<in> set (paraPaths x)) = outermost x q" by simp
  have "p \<in> set (paraPaths (Arr items)) \<longleftrightarrow>
        (\<exists>j q. p = Idx (0 + j) # q \<and> j < length items \<and> q \<in> set (paraPaths (items ! j)))"
    by (simp only: paraPaths.simps paraPaths_items_under mem_underItems)
  also have "\<dots> \<longleftrightarrow> (\<exists>j q. p = Idx j # q \<and> j < length items \<and> outermost (items ! j) q)"
    using ih by auto
  finally show ?case by (simp add: outermost_Arr)
next
  case (2 s)
  then show ?case by (cases p) (simp_all add: isParagraph_def)
next
  case (3 kvs)
  show ?case
  proof (cases "hasKey ''w:p'' kvs")
    case True
    then show ?thesis by (cases p) (simp_all add: isParagraph_def)
  next
    case False
    with 3 have ih: "\<forall>kv \<in> set kvs. isChildKey (fst kv) \<longrightarrow> (\<forall>q. (q \<in> set (paraPaths (snd kv))) = outermost (snd kv) q)"
      by simp
    from "3.prems" have d: "distinct (map fst kvs)" by simp
    have "p \<in> set (paraPaths (Obj kvs)) \<longleftrightarrow>
        (\<exists>k v q. p = Key k # q \<and> (k, v) \<in> set kvs \<and> isChildKey k \<and> q \<in> set (paraPaths v))"
      using False by (simp add: paraPaths_keys_under mem_underKeys)
    also have "\<dots> \<longleftrightarrow> (\<exists>k v q. p = Key k # q \<and> (k, v) \<in> set kvs \<and> isChildKey k \<and> outermost v q)"
      using ih by fastforce
    finally show ?thesis by (simp add: outermost_Obj[OF False d])
  qed
next
  case (4 i)
  then show ?case by simp
next
  case (5 i item items)
  then show ?case by simp
next
  case 6
  then show ?case by simp
next
  case (7 key v kvs)
  then show ?case by simp
qed

lemma paragraphLeavesAt_Cons:
  assumes "getChild n s = Some c"
  shows "paragraphLeavesAt n (s # q) = map ((#) s) (paragraphLeavesAt c q)"
proof (cases "deref c q")
  case None
  with assms show ?thesis by (simp add: paragraphLeavesAt_def)
next
  case (Some m)
  show ?thesis
  proof (cases m)
    case (Obj kvs)
    with Some assms show ?thesis
      by (cases "map_of kvs ''w:p''")
         (simp_all add: paragraphLeavesAt_def paragraphLeaves_def collectWtNodes_eq)
  qed (use Some assms in \<open>simp_all add: paragraphLeavesAt_def\<close>)
qed

lemma paragraphLeavesAt_Nil:
  "paragraphLeavesAt (Obj kvs) [] =
     (case map_of kvs ''w:p'' of None \<Rightarrow> [] | Some para \<Rightarrow> map ((#) (Key ''w:p'')) (leavesOf para))"
  by (simp add: paragraphLeavesAt_def paragraphLeaves_def collectWtNodes_eq split: option.split)

lemma parasOf_items_eq:
  assumes "\<forall>x \<in> set items. parasOf x = map (paragraphLeavesAt x) (paraPaths x)"
  shows "parasOf_items (length pre) items =
           map (paragraphLeavesAt (Arr (pre @ items))) (paraPaths_items (length pre) items)"
  using assms
proof (induction items arbitrary: pre)
  case Nil
  then show ?case by simp
next
  case (Cons item items)
  have g: "getChild (Arr (pre @ item # items)) (Idx (length pre)) = Some item"
    by simp
  have "parasOf_items (length (pre @ [item])) items =
        map (paragraphLeavesAt (Arr ((pre @ [item]) @ items))) (paraPaths_items (length (pre @ [item])) items)"
    using Cons.prems by (intro Cons.IH) simp
  then have b: "parasOf_items (Suc (length pre)) items =
        map (paragraphLeavesAt (Arr (pre @ item # items))) (paraPaths_items (Suc (length pre)) items)"
    by simp
  from Cons.prems have a: "parasOf item = map (paragraphLeavesAt item) (paraPaths item)"
    by simp
  show ?case
    by (simp add: a b paragraphLeavesAt_Cons[OF g] comp_def)
qed

lemma parasOf_keys_eq:
  assumes "distinct (map fst kvs)"
    "\<forall>kv \<in> set kvs. isChildKey (fst kv) \<longrightarrow>
       parasOf (snd kv) = map (paragraphLeavesAt (snd kv)) (paraPaths (snd kv))"
  shows "parasOf_keys kvs = map (paragraphLeavesAt (Obj kvs)) (paraPaths_keys kvs)"
  using assms
proof (induction kvs)
  case Nil
  then show ?case by simp
next
  case (Cons kv kvs)
  obtain key v where kv: "kv = (key, v)" by (cases kv)
  from Cons.prems have d: "key \<notin> fst ` set kvs" "distinct (map fst kvs)"
    and s: "isChildKey key \<longrightarrow> parasOf v = map (paragraphLeavesAt v) (paraPaths v)"
      "\<forall>kv \<in> set kvs. isChildKey (fst kv) \<longrightarrow>
         parasOf (snd kv) = map (paragraphLeavesAt (snd kv)) (paraPaths (snd kv))"
    by (simp_all add: kv)
  have g: "getChild (Obj ((key, v) # kvs)) (Key key) = Some v"
    by simp
  have ih: "parasOf_keys kvs = map (paragraphLeavesAt (Obj kvs)) (paraPaths_keys kvs)"
    using d(2) s(2) by (rule Cons.IH)
  have "paragraphLeavesAt (Obj ((key, v) # kvs)) p = paragraphLeavesAt (Obj kvs) p"
    if "p \<in> set (paraPaths_keys kvs)" for p
  proof -
    from that obtain k w q where p: "p = Key k # q" "(k, w) \<in> set kvs"
      by (auto simp: paraPaths_keys_under mem_underKeys)
    with d(1) have "k \<noteq> key" by force
    moreover from p(2) d(2) have "map_of kvs k = Some w" by simp
    ultimately show ?thesis
      by (simp add: p(1) paragraphLeavesAt_Cons)
  qed
  then have b: "map (paragraphLeavesAt (Obj ((key, v) # kvs))) (paraPaths_keys kvs) =
                map (paragraphLeavesAt (Obj kvs)) (paraPaths_keys kvs)"
    by simp
  show ?case
    using s(1) by (simp add: kv ih b paragraphLeavesAt_Cons[OF g] comp_def)
qed

lemma parasOf_paraPaths:
  fixes i :: nat
  shows "uniqueKeys n \<Longrightarrow> parasOf n = map (paragraphLeavesAt n) (paraPaths n)"
    and "\<forall>x \<in> set items. uniqueKeys x \<Longrightarrow>
       \<forall>x \<in> set items. parasOf x = map (paragraphLeavesAt x) (paraPaths x)"
    and "\<forall>kv \<in> set kvs. uniqueKeys (snd kv) \<Longrightarrow>
       \<forall>kv \<in> set kvs. isChildKey (fst kv) \<longrightarrow>
         parasOf (snd kv) = map (paragraphLeavesAt (snd kv)) (paraPaths (snd kv))"
proof (induction n and i items and kvs rule: parasOf_parasOf_items_parasOf_keys.induct)
  case (1 items)
  then have "\<forall>x \<in> set items. parasOf x = map (paragraphLeavesAt x) (paraPaths x)" by simp
  then have "parasOf_items (length ([] :: xnode list)) items =
     map (paragraphLeavesAt (Arr ([] @ items))) (paraPaths_items (length ([] :: xnode list)) items)"
    by (rule parasOf_items_eq)
  then show ?case by simp
next
  case (2 s)
  then show ?case by simp
next
  case (3 kvs)
  show ?case
  proof (cases "hasKey ''w:p'' kvs")
    case True
    then show ?thesis by (simp add: paragraphLeavesAt_Nil)
  next
    case False
    with 3 have "\<forall>kv \<in> set kvs. isChildKey (fst kv) \<longrightarrow>
         parasOf (snd kv) = map (paragraphLeavesAt (snd kv)) (paraPaths (snd kv))"
      by simp
    moreover from "3.prems" have "distinct (map fst kvs)" by simp
    ultimately have "parasOf_keys kvs = map (paragraphLeavesAt (Obj kvs)) (paraPaths_keys kvs)"
      by (intro parasOf_keys_eq)
    with False show ?thesis by simp
  qed
next
  case (4 i)
  then show ?case by simp
next
  case (5 i item items)
  then show ?case by simp
next
  case 6
  then show ?case by simp
next
  case (7 key v kvs)
  then show ?case by simp
qed

lemma uniqueKeys_getChild: "uniqueKeys n \<Longrightarrow> getChild n s = Some c \<Longrightarrow> uniqueKeys c"
proof (cases n)
  case (Obj kvs)
  assume "uniqueKeys n" "getChild n s = Some c"
  with Obj show ?thesis
    by (cases s) (auto dest!: map_of_SomeD)
next
  case (Arr items)
  assume "uniqueKeys n" "getChild n s = Some c"
  with Arr show ?thesis
    by (cases s) (auto split: if_splits)
qed simp

lemma uniqueKeys_deref: "uniqueKeys n \<Longrightarrow> deref n q = Some c \<Longrightarrow> uniqueKeys c"
proof (induction q arbitrary: n)
  case Nil
  then show ?case by simp
next
  case (Cons s q)
  then show ?case
    by (auto split: option.splits dest: uniqueKeys_getChild)
qed

lemma sorted_wrt_map_append:
  "deref n q = Some c \<Longrightarrow> sorted_wrt (docBefore n) (map ((@) q) rs) = sorted_wrt (docBefore c) rs"
  by (simp add: sorted_wrt_map docBefore_append)

lemma deref_snoc: "deref n (q @ [s]) = (case deref n q of None \<Rightarrow> None | Some c \<Rightarrow> getChild c s)"
  by (induction q arbitrary: n) (auto split: option.splits)

lemma sorted_paragraphLeavesAt:
  assumes "uniqueKeys doc"
  shows "sorted_wrt (docBefore doc) (paragraphLeavesAt doc p)"
proof (cases "deref doc p")
  case None
  then show ?thesis by (simp add: paragraphLeavesAt_def)
next
  case (Some m)
  show ?thesis
  proof (cases m)
    case (Obj kvs)
    show ?thesis
    proof (cases "map_of kvs ''w:p''")
      case None
      with Some Obj show ?thesis by (simp add: paragraphLeavesAt_def paragraphLeaves_def)
    next
      case (Some para)
      with \<open>deref doc p = Some m\<close> Obj have d: "deref doc (p @ [Key ''w:p'']) = Some para"
        by (simp add: deref_snoc)
      with assms have "uniqueKeys para" by (rule uniqueKeys_deref)
      then have "sorted_wrt (docBefore para) (leavesOf para)" by (rule sorted_leavesOf(1))
      with Some \<open>deref doc p = Some m\<close> Obj show ?thesis
        by (simp add: paragraphLeavesAt_def paragraphLeaves_def collectWtNodes_eq
            sorted_wrt_map_append[OF d])
    qed
  qed (use Some in \<open>simp_all add: paragraphLeavesAt_def\<close>)
qed

lemma fold_emit_segments:
  "fst (fold (emit doc) wts st) =
     fst st @ map2 (\<lambda>i wt. \<lparr>id_seg = i, text_seg = concat (map (getText doc) wt), translated = None,
                              wtNodes = wt\<rparr>)
                [snd st ..< snd st + length (filter (keep doc) wts)] (filter (keep doc) wts)"
proof (induction wts arbitrary: st)
  case Nil
  then show ?case by simp
next
  case (Cons wt wts)
  show ?case
  proof (cases "keep doc wt")
    case True
    then have "emit doc wt st = (fst st @ [\<lparr>id_seg = snd st, text_seg = concat (map (getText doc) wt),
         translated = None, wtNodes = wt\<rparr>], snd st + 1)"
      by (simp add: emit_def keep_def)
    moreover have "[snd st ..< snd st + Suc k] = snd st # [Suc (snd st) ..< Suc (snd st) + k]" for k
      by (simp add: upt_conv_Cons)
    ultimately show ?thesis using True
      by (simp add: Cons.IH del: upt_Suc)
  next
    case False
    then have "emit doc wt st = st" by (auto simp: emit_def keep_def)
    with False show ?thesis by (simp add: Cons.IH)
  qed
qed

lemma keep_paragraphLeavesAt:
  "keep doc (paragraphLeavesAt doc p) = (trim (paragraphTextAt doc p) \<noteq> [])"
  by (auto simp: keep_def paragraphTextAt_def trim_Nil)

lemma extraction_by_paragraph:
  assumes "uniqueKeys doc"
  shows "extractSegmentsByParagraph doc [] doc ([], 0) =
           (map2 (segmentAt doc)
              [0 ..< length (filter (\<lambda>p. trim (paragraphTextAt doc p) \<noteq> []) (paraPaths doc))]
              (filter (\<lambda>p. trim (paragraphTextAt doc p) \<noteq> []) (paraPaths doc)),
            length (filter (\<lambda>p. trim (paragraphTextAt doc p) \<noteq> []) (paraPaths doc)))"
proof -
  let ?ps = "filter (\<lambda>p. trim (paragraphTextAt doc p) \<noteq> []) (paraPaths doc)"
  have e: "extractSegmentsByParagraph doc [] doc ([], 0) = fold (emit doc) (parasOf doc) ([], 0)"
    by (simp add: extract_eq append_Nil_fun)
  have f: "filter (keep doc) (parasOf doc) = map (paragraphLeavesAt doc) ?ps"
    by (simp add: parasOf_paraPaths(1)[OF assms] filter_map comp_def keep_paragraphLeavesAt)
  have "fst (extractSegmentsByParagraph doc [] doc ([], 0)) = map2 (segmentAt doc) [0 ..< length ?ps] ?ps"
    unfolding e fold_emit_segments f
    by (simp add: zip_map2 segmentAt_def paragraphTextAt_def case_prod_beta comp_def)
  moreover have "snd (extractSegmentsByParagraph doc [] doc ([], 0)) = length ?ps"
    unfolding e fold_emit_counter f by simp
  ultimately show ?thesis by (simp add: prod_eq_iff)
qed

lemma docBefore_irrefl: "\<not> docBefore n a a"
  by (induction a arbitrary: n) (auto split: option.splits)

lemma sorted_wrt_docBefore_distinct: "sorted_wrt (docBefore n) ps \<Longrightarrow> distinct ps"
  by (induction ps) (auto simp: docBefore_irrefl)

lemma isParagraphAt_Nil [simp]: "isParagraphAt n [] = isParagraph n"
  by (simp add: isParagraphAt_def)

lemma isParagraphAt_Cons:
  "isParagraphAt n (s # p) = (case getChild n s of None \<Rightarrow> False | Some c \<Rightarrow> isParagraphAt c p)"
  by (simp add: isParagraphAt_def split: option.split)

lemma outermost_iff:
  "outermost doc p \<longleftrightarrow>
     isParagraphAt doc p \<and> (\<forall>q. strict_prefix q p \<longrightarrow> \<not> isParagraphAt doc q) \<and>
     list_all isElementStep p"
proof (induction p arbitrary: doc)
  case Nil
  then show ?case by simp
next
  case (Cons s p)
  show ?case
  proof (cases "getChild doc s")
    case None
    then show ?thesis by (simp add: isParagraphAt_Cons)
  next
    case (Some c)
    have "(\<forall>q. strict_prefix q (s # p) \<longrightarrow> \<not> isParagraphAt doc q) \<longleftrightarrow>
          \<not> isParagraph doc \<and> (\<forall>q'. strict_prefix q' p \<longrightarrow> \<not> isParagraphAt c q')"
    proof
      assume a: "\<forall>q. strict_prefix q (s # p) \<longrightarrow> \<not> isParagraphAt doc q"
      have "\<not> isParagraph doc" using a[rule_format, of "[]"] by simp
      moreover have "\<not> isParagraphAt c q'" if "strict_prefix q' p" for q'
        using a[rule_format, of "s # q'"] that Some by (simp add: isParagraphAt_Cons)
      ultimately show "\<not> isParagraph doc \<and> (\<forall>q'. strict_prefix q' p \<longrightarrow> \<not> isParagraphAt c q')"
        by blast
    next
      assume b: "\<not> isParagraph doc \<and> (\<forall>q'. strict_prefix q' p \<longrightarrow> \<not> isParagraphAt c q')"
      show "\<forall>q. strict_prefix q (s # p) \<longrightarrow> \<not> isParagraphAt doc q"
      proof (intro allI impI)
        fix q assume q: "strict_prefix q (s # p)"
        show "\<not> isParagraphAt doc q"
        proof (cases q)
          case Nil
          with b show ?thesis by simp
        next
          case (Cons t q')
          with q have "t = s" "strict_prefix q' p" by (auto simp: strict_prefix_def)
          with b Some Cons show ?thesis by (simp add: isParagraphAt_Cons)
        qed
      qed
    qed
    with Some Cons.IH[of c] show ?thesis
      by (auto simp: isParagraphAt_Cons)
  qed
qed

lemma paragraph_branch:
  assumes "hasKey ''w:p'' kvs"
  shows "(trim (paragraphText doc p kvs) = [] \<longrightarrow>
            extractSegmentsByParagraph doc p (Obj kvs) (segs, c) = (segs, c)) \<and>
         (trim (paragraphText doc p kvs) \<noteq> [] \<longrightarrow>
            extractSegmentsByParagraph doc p (Obj kvs) (segs, c) =
              (segs @ [\<lparr>id_seg = c, text_seg = paragraphText doc p kvs, translated = None,
                         wtNodes = paragraphLeaves p kvs\<rparr>], c + 1))"
  using assms
  by (auto simp: paragraphText_def paragraphLeaves_def Let_def trim_Nil)

section \<open>Properties of extraction\<close>

lemma fox_extract:
  "extractSegmentsByParagraph foxDoc [] foxDoc ([], 0) = ([foxSegment None], 1)"
  by code_simp

lemma fox_uniqueKeys: "uniqueKeys foxDoc"
  by code_simp

lemma exampleEnv_parse: "parseDocx exampleEnv ''in.docx'' = Inr exampleParsed"
  by (simp add: parseDocx_def exampleEnv_def exampleZip_def exampleParsed_def fox_extract)

text \<open>
  The ids of the segments of an extraction are 0, 1, 2, ... in the order of the list, and
  the counter ends at their number.
\<close>

lemma extraction_ids:
  "map id_seg (fst (extractSegmentsByParagraph doc [] doc ([], 0))) =
     [0 ..< length (fst (extractSegmentsByParagraph doc [] doc ([], 0)))] \<and>
   snd (extractSegmentsByParagraph doc [] doc ([], 0)) =
     length (fst (extractSegmentsByParagraph doc [] doc ([], 0)))"
proof -
  have "length (fst (extractSegmentsByParagraph doc [] doc ([], 0))) =
        length (map wtNodes (fst (extractSegmentsByParagraph doc [] doc ([], 0))))"
    by simp
  also have "\<dots> = length (filter (keep doc) (parasOf doc))"
    by (simp only: extract_eq fold_emit_wtNodes append_Nil_fun) simp
  finally show ?thesis
    by (simp add: extract_eq fold_emit_ids fold_emit_counter append_Nil_fun)
qed

text \<open>
  C3. Every segment that extraction produces for a document references at least one leaf,
  and its \<open>text_seg\<close> (the \<^verbatim>\<open>sourceText\<close>) is the concatenation, in the order of \<open>wtNodes\<close> and
  with nothing in between, of the texts read through its references. In a tree whose
  objects have their keys once, each of these references leads to a text-bearing leaf of
  the document, no leaf is referenced twice, and the references are in document order:
  each of them comes before every later one in the document.
\<close>

theorem extracted_segment_invariant:
  assumes "s \<in> set (fst (extractSegmentsByParagraph doc [] doc ([], 0)))"
  shows "wtNodes s \<noteq> [] \<and>
         text_seg s = concat (map (getText doc) (wtNodes s)) \<and>
         (uniqueKeys doc \<longrightarrow>
            (\<forall>wt \<in> set (wtNodes s). isLeafAt doc wt) \<and> distinct (wtNodes s) \<and>
            sorted_wrt (docBefore doc) (wtNodes s))"
proof -
  have "\<forall>s \<in> set (fst (extractSegmentsByParagraph doc [] doc ([], 0))). segInv doc s"
    by (rule extract_inv(1)) simp
  with assms have inv: "segInv doc s" by blast
  have "(\<forall>wt \<in> set (wtNodes s). isLeafAt doc wt) \<and> distinct (wtNodes s) \<and>
        sorted_wrt (docBefore doc) (wtNodes s)" if u: "uniqueKeys doc"
  proof -
    from u have "good doc (concat (map wtNodes (fst (extractSegmentsByParagraph doc [] doc ([], 0)))))"
      by (rule extracted_refs_good)
    moreover from assms obtain pre post where
      "fst (extractSegmentsByParagraph doc [] doc ([], 0)) = pre @ s # post"
      by (auto simp: in_set_conv_decomp)
    ultimately have g: "good doc (wtNodes s)" by (simp add: good_append)
    from assms have "wtNodes s \<in> set (map wtNodes (fst (extractSegmentsByParagraph doc [] doc ([], 0))))"
      by simp
    then have "wtNodes s \<in> set (parasOf doc)"
      by (simp add: extract_eq fold_emit_wtNodes append_Nil_fun)
    then obtain p where "wtNodes s = paragraphLeavesAt doc p"
      by (auto simp: parasOf_paraPaths(1)[OF u])
    with u have "sorted_wrt (docBefore doc) (wtNodes s)"
      by (simp add: sorted_paragraphLeavesAt)
    with g show ?thesis by (simp add: good_def indep_distinct)
  qed
  with inv show ?thesis by (simp add: segInv_def)
qed

theorem extracted_segment_invariant_witness:
  "foxSegment None \<in> set (fst (extractSegmentsByParagraph foxDoc [] foxDoc ([], 0))) \<and>
   uniqueKeys foxDoc \<and>
   wtNodes (foxSegment None) = [foxRef 0, foxRef 1, foxRef 2] \<and>
   ''The quick fox'' = concat (map (getText foxDoc) [foxRef 0, foxRef 1, foxRef 2]) \<and>
   isLeafAt foxDoc (foxRef 0) \<and> isLeafAt foxDoc (foxRef 1) \<and> isLeafAt foxDoc (foxRef 2) \<and>
   distinct [foxRef 0, foxRef 1, foxRef 2] \<and>
   sorted_wrt (docBefore foxDoc) [foxRef 0, foxRef 1, foxRef 2] \<and>
   docBefore foxDoc (foxRef 0) (foxRef 1) \<and> docBefore foxDoc (foxRef 1) (foxRef 2) \<and>
   \<not> docBefore foxDoc (foxRef 1) (foxRef 0)"
proof -
  have h: "foxSegment None \<in> set (fst (extractSegmentsByParagraph foxDoc [] foxDoc ([], 0)))"
    by (simp add: fox_extract)
  have n: "\<not> docBefore foxDoc (foxRef 1) (foxRef 0)"
    by code_simp
  from extracted_segment_invariant[OF h] h fox_uniqueKeys n show ?thesis
    by (simp add: foxSegment_def)
qed

lemma hello_uniqueKeys: "uniqueKeys helloDoc"
  by code_simp

lemma hello_extract:
  "extractSegmentsByParagraph helloDoc [] helloDoc ([], 0) =
     ([segmentAt helloDoc 0 (helloPara 0)], 1)"
  by code_simp

lemma hello_paragraphs:
  "outermost helloDoc (helloPara 0) \<and> trim (paragraphTextAt helloDoc (helloPara 0)) \<noteq> [] \<and>
   outermost helloDoc (helloPara 1) \<and> trim (paragraphTextAt helloDoc (helloPara 1)) = []"
  by code_simp

text \<open>
  C4, as the code has it. Extraction emits its segments for the outermost paragraphs of
  the document: the paragraphs that do not lie inside another paragraph. In a tree whose
  objects have their keys once, the outermost paragraphs whose text is not empty after
  trimming, taken in document order, are \<open>ps\<close>; extraction returns exactly one segment
  for each of them, in that order and with the ids 0, 1, 2, ..., and the counter ends at
  their number. So an outermost paragraph whose text is empty after trimming (white space
  only, or no leaves) gets no segment and does not advance the counter, and every other
  outermost paragraph gets exactly one segment and advances the counter by one.

  The second part is the step at one paragraph: wherever the traversal is applied to a
  paragraph, with the segments \<open>segs\<close> and the counter \<open>c\<close>, it returns both unchanged if
  the text of the paragraph is empty after trimming, and otherwise appends one segment
  with id \<open>c\<close> and returns the counter \<open>c + 1\<close>.
\<close>

theorem one_segment_for_each_outermost_paragraph:
  assumes "uniqueKeys doc"
  shows "(\<exists>ps. sorted_wrt (docBefore doc) ps \<and> distinct ps \<and>
               set ps = {p. outermost doc p \<and> trim (paragraphTextAt doc p) \<noteq> []} \<and>
               extractSegmentsByParagraph doc [] doc ([], 0) =
                 (map2 (segmentAt doc) [0 ..< length ps] ps, length ps)) \<and>
         (\<forall>p kvs segs c. hasKey ''w:p'' kvs \<longrightarrow>
            (trim (paragraphText doc p kvs) = [] \<longrightarrow>
               extractSegmentsByParagraph doc p (Obj kvs) (segs, c) = (segs, c)) \<and>
            (trim (paragraphText doc p kvs) \<noteq> [] \<longrightarrow>
               extractSegmentsByParagraph doc p (Obj kvs) (segs, c) =
                 (segs @ [\<lparr>id_seg = c, text_seg = paragraphText doc p kvs, translated = None,
                            wtNodes = paragraphLeaves p kvs\<rparr>], c + 1)))"
proof -
  let ?ps = "filter (\<lambda>p. trim (paragraphTextAt doc p) \<noteq> []) (paraPaths doc)"
  from assms have "sorted_wrt (docBefore doc) (paraPaths doc)"
    by (rule sorted_paraPaths(1))
  then have s: "sorted_wrt (docBefore doc) ?ps"
    by (rule sorted_wrt_filter)
  then have d: "distinct ?ps"
    by (rule sorted_wrt_docBefore_distinct)
  have m: "set ?ps = {p. outermost doc p \<and> trim (paragraphTextAt doc p) \<noteq> []}"
    using mem_paraPaths(1)[OF assms] by auto
  from s d m extraction_by_paragraph[OF assms]
  have "\<exists>ps. sorted_wrt (docBefore doc) ps \<and> distinct ps \<and>
               set ps = {p. outermost doc p \<and> trim (paragraphTextAt doc p) \<noteq> []} \<and>
               extractSegmentsByParagraph doc [] doc ([], 0) =
                 (map2 (segmentAt doc) [0 ..< length ps] ps, length ps)"
    by blast
  then show ?thesis
    using paragraph_branch by blast
qed

theorem one_segment_for_each_outermost_paragraph_witness:
  "uniqueKeys helloDoc \<and>
   outermost helloDoc (helloPara 0) \<and> trim (paragraphTextAt helloDoc (helloPara 0)) \<noteq> [] \<and>
   outermost helloDoc (helloPara 1) \<and> trim (paragraphTextAt helloDoc (helloPara 1)) = [] \<and>
   {p. outermost helloDoc p \<and> trim (paragraphTextAt helloDoc p) \<noteq> []} = {helloPara 0} \<and>
   extractSegmentsByParagraph helloDoc [] helloDoc ([], 0) =
     ([segmentAt helloDoc 0 (helloPara 0)], 1) \<and>
   hasKey ''w:p'' [(''w:p'', Arr [exampleRun ''  ''])] \<and>
   trim (paragraphText helloDoc (helloPara 1) [(''w:p'', Arr [exampleRun ''  ''])]) = [] \<and>
   extractSegmentsByParagraph helloDoc (helloPara 1)
     (Obj [(''w:p'', Arr [exampleRun ''  ''])]) ([], 7) = ([], 7) \<and>
   hasKey ''w:p'' [(''w:p'', Arr [exampleRun ''Hello world.''])] \<and>
   trim (paragraphText helloDoc (helloPara 0) [(''w:p'', Arr [exampleRun ''Hello world.''])]) \<noteq> [] \<and>
   extractSegmentsByParagraph helloDoc (helloPara 0)
     (Obj [(''w:p'', Arr [exampleRun ''Hello world.''])]) ([], 7) =
     ([\<lparr>id_seg = 7, text_seg = ''Hello world.'', translated = None, wtNodes = [helloRef 0]\<rparr>], 8)"
proof -
  note t = one_segment_for_each_outermost_paragraph[OF hello_uniqueKeys]
  from t obtain ps where ps: "distinct ps"
    "set ps = {p. outermost helloDoc p \<and> trim (paragraphTextAt helloDoc p) \<noteq> []}"
    "extractSegmentsByParagraph helloDoc [] helloDoc ([], 0) =
       (map2 (segmentAt helloDoc) [0 ..< length ps] ps, length ps)"
    by blast
  from ps(3) have "length ps = 1"
    by (simp add: hello_extract)
  then obtain x where x: "ps = [x]"
    by (cases ps) simp_all
  from hello_paragraphs ps(2) have "helloPara 0 \<in> set ps"
    by simp
  with x have "ps = [helloPara 0]"
    by simp
  with ps(2) have global: "{p. outermost helloDoc p \<and> trim (paragraphTextAt helloDoc p) \<noteq> []} = {helloPara 0}"
    by simp
  have h1: "hasKey ''w:p'' [(''w:p'', Arr [exampleRun ''  ''])]"
    by (simp add: hasKey_def)
  have h2: "hasKey ''w:p'' [(''w:p'', Arr [exampleRun ''Hello world.''])]"
    by (simp add: hasKey_def)
  have t1: "paragraphText helloDoc (helloPara 1) [(''w:p'', Arr [exampleRun ''  ''])] = ''  ''"
    by code_simp
  have t2: "paragraphText helloDoc (helloPara 0) [(''w:p'', Arr [exampleRun ''Hello world.''])] =
      ''Hello world.''"
    by code_simp
  have l2: "paragraphLeaves (helloPara 0) [(''w:p'', Arr [exampleRun ''Hello world.''])] = [helloRef 0]"
    by code_simp
  have w1: "trim ''  '' = []"
    by code_simp
  have w2: "trim ''Hello world.'' \<noteq> []"
    by code_simp
  have r1: "trim (paragraphText helloDoc (helloPara 1) [(''w:p'', Arr [exampleRun ''  ''])]) = []"
    by (simp only: t1 w1)
  have r2: "trim (paragraphText helloDoc (helloPara 0) [(''w:p'', Arr [exampleRun ''Hello world.''])]) \<noteq> []"
    by (simp only: t2 w2 not_False_eq_True)
  from t h1 r1
  have e1: "extractSegmentsByParagraph helloDoc (helloPara 1)
     (Obj [(''w:p'', Arr [exampleRun ''  ''])]) ([], 7) = ([], 7)"
    by blast
  have n: "(7::nat) + 1 = 8"
    by simp
  from t h2 r2
  have "extractSegmentsByParagraph helloDoc (helloPara 0)
     (Obj [(''w:p'', Arr [exampleRun ''Hello world.''])]) ([], 7) =
     ([] @ [\<lparr>id_seg = 7, text_seg = paragraphText helloDoc (helloPara 0)
              [(''w:p'', Arr [exampleRun ''Hello world.''])],
            translated = None,
            wtNodes = paragraphLeaves (helloPara 0) [(''w:p'', Arr [exampleRun ''Hello world.''])]\<rparr>],
      7 + 1)"
    by blast
  then have e2: "extractSegmentsByParagraph helloDoc (helloPara 0)
     (Obj [(''w:p'', Arr [exampleRun ''Hello world.''])]) ([], 7) =
     ([\<lparr>id_seg = 7, text_seg = ''Hello world.'', translated = None, wtNodes = [helloRef 0]\<rparr>], 8)"
    by (simp only: t2 l2 n append_Nil)
  from hello_uniqueKeys hello_paragraphs global hello_extract h1 r1 e1 h2 r2 e2 show ?thesis
    by blast
qed

text \<open>
  C4, as the claim has it, fails for a paragraph that lies inside another paragraph. In the
  document with a text box there are two paragraphs, and the text of each is not empty
  after trimming; the inner one is not outermost. Extraction emits one segment, not two:
  the segment of the outer paragraph, whose text takes in the text of the inner one, and
  the counter ends at 1. The inner paragraph gets no segment of its own.
\<close>

theorem nested_paragraph_counterexample:
  "isParagraphAt nestedDoc outerPara \<and> isParagraphAt nestedDoc innerPara \<and>
   outerPara \<noteq> innerPara \<and>
   paragraphTextAt nestedDoc outerPara = ''outer inner'' \<and>
   paragraphTextAt nestedDoc innerPara = ''inner'' \<and>
   trim (paragraphTextAt nestedDoc outerPara) \<noteq> [] \<and>
   trim (paragraphTextAt nestedDoc innerPara) \<noteq> [] \<and>
   \<not> outermost nestedDoc innerPara \<and>
   extractSegmentsByParagraph nestedDoc [] nestedDoc ([], 0) =
     ([segmentAt nestedDoc 0 outerPara], 1) \<and>
   text_seg (segmentAt nestedDoc 0 outerPara) = ''outer inner'' \<and>
   length (fst (extractSegmentsByParagraph nestedDoc [] nestedDoc ([], 0))) = 1"
  by code_simp

section \<open>Properties of write-back\<close>

text \<open>
  C1, as the code has it. Take the segments of an extraction, with whatever the translation
  passes have put into their \<open>translated\<close> fields, and write them back. For every segment
  whose translation is present and not the empty string, the first referenced leaf then
  holds the whole translation and each other referenced leaf holds the empty string; the
  leaves that the traversal finds in the tree are the same as before, and the markup of the
  tree (everything except the values of \<^verbatim>\<open>#text\<close> properties) is unchanged.
\<close>

theorem write_back_of_translated_segment:
  assumes "uniqueKeys doc"
    and "map wtNodes segs = map wtNodes (fst (extractSegmentsByParagraph doc [] doc ([], 0)))"
    and "seg \<in> set segs" and "translated seg = Some tr" and "tr \<noteq> []"
  shows "wtNodes seg \<noteq> [] \<and>
         getText (applyTranslations segs doc) (hd (wtNodes seg)) = tr \<and>
         (\<forall>wt \<in> set (tl (wtNodes seg)). getText (applyTranslations segs doc) wt = []) \<and>
         collectWtNodes [] (applyTranslations segs doc) [] = collectWtNodes [] doc [] \<and>
         markup (applyTranslations segs doc) = markup doc"
proof -
  have g: "good doc (concat (map wtNodes segs))"
    using assms(1,2) extracted_refs_good by simp
  have "wtNodes seg \<in> set (filter (keep doc) (parasOf doc))"
  proof -
    from assms(3) have "wtNodes seg \<in> set (map wtNodes segs)" by simp
    then show ?thesis
      by (simp add: assms(2) extract_eq fold_emit_wtNodes append_Nil_fun)
  qed
  then have ne: "wtNodes seg \<noteq> []" by (simp add: keep_def)
  have m: "markup (applyTranslations segs doc) = markup doc"
    using g by (rule markup_applyTranslations)
  have "collectWtNodes [] (applyTranslations segs doc) [] =
        collectWtNodes [] (markup (applyTranslations segs doc)) []"
    by (simp add: collectWtNodes_markup)
  also have "\<dots> = collectWtNodes [] doc []"
    by (simp add: m collectWtNodes_markup)
  finally have c: "collectWtNodes [] (applyTranslations segs doc) [] = collectWtNodes [] doc []" .
  from getText_applyTranslations[OF g assms(3,4,5) ne] ne m c show ?thesis by simp
qed

theorem write_back_of_translated_segment_witness:
  "uniqueKeys foxDoc \<and>
   map wtNodes [foxSegment (Some ''X'')] =
     map wtNodes (fst (extractSegmentsByParagraph foxDoc [] foxDoc ([], 0))) \<and>
   translated (foxSegment (Some ''X'')) = Some ''X'' \<and>
   getText (applyTranslations [foxSegment (Some ''X'')] foxDoc) (foxRef 0) = ''X'' \<and>
   getText (applyTranslations [foxSegment (Some ''X'')] foxDoc) (foxRef 1) = [] \<and>
   getText (applyTranslations [foxSegment (Some ''X'')] foxDoc) (foxRef 2) = [] \<and>
   markup (applyTranslations [foxSegment (Some ''X'')] foxDoc) = markup foxDoc"
proof -
  have h2: "map wtNodes [foxSegment (Some ''X'')] =
     map wtNodes (fst (extractSegmentsByParagraph foxDoc [] foxDoc ([], 0)))"
    by (simp add: fox_extract foxSegment_def)
  have h3: "foxSegment (Some ''X'') \<in> set [foxSegment (Some ''X'')]"
    by simp
  have h4: "translated (foxSegment (Some ''X'')) = Some ''X''"
    by (simp add: foxSegment_def)
  have h5: "''X'' \<noteq> []"
    by simp
  from write_back_of_translated_segment[OF fox_uniqueKeys h2 h3 h4 h5] fox_uniqueKeys h2 h4
  show ?thesis by (simp add: foxSegment_def)
qed

text \<open>
  The scenario of the specification: of two paragraphs, \<^verbatim>\<open>Hello world.\<close> and white space,
  extraction yields one segment, with id 0; writing a translation back changes the leaf of
  the first paragraph and leaves the leaf of the second as it was.
\<close>

lemma hello_scenario:
  "extractSegmentsByParagraph helloDoc [] helloDoc ([], 0) =
     ([\<lparr>id_seg = 0, text_seg = ''Hello world.'', translated = None, wtNodes = [helloRef 0]\<rparr>], 1) \<and>
   getText (applyTranslations
              [\<lparr>id_seg = 0, text_seg = ''Hello world.'', translated = Some ''Ni hao.'',
                wtNodes = [helloRef 0]\<rparr>] helloDoc) (helloRef 0) = ''Ni hao.'' \<and>
   getText (applyTranslations
              [\<lparr>id_seg = 0, text_seg = ''Hello world.'', translated = Some ''Ni hao.'',
                wtNodes = [helloRef 0]\<rparr>] helloDoc) (helloRef 1) = ''  ''"
  by code_simp

text \<open>
  C1, as the claim has it, fails for a translation that is present and empty. The segment
  of the three-run paragraph, with \<open>translated = Some []\<close>, is written back: the first leaf
  still reads \<^verbatim>\<open>"The "\<close>, not the translation, and the second still reads \<^verbatim>\<open>"quick"\<close>, not the
  empty string.
\<close>

theorem write_back_of_empty_translation_counterexample:
  "fst (extractSegmentsByParagraph foxDoc [] foxDoc ([], 0)) = [foxSegment None] \<and>
   translated (foxSegment (Some [])) = Some [] \<and>
   length (wtNodes (foxSegment (Some []))) = 3 \<and>
   getText (applyTranslations [foxSegment (Some [])] foxDoc) (hd (wtNodes (foxSegment (Some [])))) = ''The '' \<and>
   getText (applyTranslations [foxSegment (Some [])] foxDoc) (hd (wtNodes (foxSegment (Some [])))) \<noteq> [] \<and>
   getText (applyTranslations [foxSegment (Some [])] foxDoc) (wtNodes (foxSegment (Some [])) ! 1) = ''quick''"
  by (simp add: fox_extract) code_simp

text \<open>
  C10. A segment whose \<open>translated\<close> is present but the empty string is written back like
  a segment without a translation: \<open>distributeTranslation\<close> returns the tree as it is, so
  the text of every leaf the segment references is what it was, and in a whole write-back
  the segment might as well not be in the list.
\<close>

theorem empty_translation_is_ignored:
  assumes "translated segment = Some []"
  shows "distributeTranslation segment doc = doc \<and>
         distributeTranslation segment doc = distributeTranslation (segment\<lparr>translated := None\<rparr>) doc \<and>
         (\<forall>wt \<in> set (wtNodes segment). getText (distributeTranslation segment doc) wt = getText doc wt) \<and>
         applyTranslations (before @ segment # after) doc = applyTranslations (before @ after) doc"
  using assms
  by (simp add: distributeTranslation_def applyTranslations_append applyTranslations_Cons)

theorem empty_translation_is_ignored_witness:
  "translated (foxSegment (Some [])) = Some [] \<and>
   distributeTranslation (foxSegment (Some [])) foxDoc = foxDoc \<and>
   map (getText (distributeTranslation (foxSegment (Some [])) foxDoc)) [foxRef 0, foxRef 1, foxRef 2] =
     map (getText foxDoc) [foxRef 0, foxRef 1, foxRef 2]"
proof -
  have h: "translated (foxSegment (Some [])) = Some []"
    by (simp add: foxSegment_def)
  from empty_translation_is_ignored[OF h, of foxDoc "[]" "[]"] h show ?thesis
    by (simp add: foxSegment_def)
qed

lemma applyTranslations_untranslated:
  "\<forall>s \<in> set segs. translated s = None \<Longrightarrow> applyTranslations segs doc = doc"
  by (induction segs) (simp_all add: applyTranslations_def distributeTranslation_def)

lemma writeDocx_documentXml:
  "documentXml (parsedAfter (writeDocx env parsed outPath)) =
     applyTranslations (segments parsed) (documentXml parsed)"
  by (simp add: writeDocx_def Let_def split: sum.split option.split)

lemma writeDocx_segments:
  "segments (parsedAfter (writeDocx env parsed outPath)) = segments parsed"
  by (simp add: writeDocx_def Let_def split: sum.split option.split)

lemma parseDocx_segments:
  assumes "parseDocx env filePath = Inr parsed"
  shows "segments parsed =
           fst (extractSegmentsByParagraph (documentXml parsed) [] (documentXml parsed) ([], 0))"
  using assms by (auto simp: parseDocx_def split: sum.splits option.splits)

text \<open>
  C2. A document is parsed and written back with no \<open>translated\<close> set on any segment. Then
  write-back leaves the tree exactly as the parser returned it: every leaf referenced by
  every segment reads as before, the text of each segment is still the concatenation of
  the texts of its leaves, and the body that goes into the archive is the serialisation
  of the unchanged tree.
\<close>

theorem round_trip_without_translation:
  assumes "parseDocx env filePath = Inr parsed"
  shows "documentXml (parsedAfter (writeDocx env parsed outPath)) = documentXml parsed \<and>
         (\<forall>s \<in> set (segments parsed).
            (\<forall>wt \<in> set (wtNodes s).
               getText (documentXml (parsedAfter (writeDocx env parsed outPath))) wt =
                 getText (documentXml parsed) wt) \<and>
            text_seg s =
              concat (map (getText (documentXml (parsedAfter (writeDocx env parsed outPath))))
                        (wtNodes s))) \<and>
         (\<forall>xml. xmlBuild env (documentXml parsed) = Inr xml \<longrightarrow>
            zip_docx (parsedAfter (writeDocx env parsed outPath)) ''word/document.xml'' = Some xml)"
proof -
  have segs: "segments parsed =
      fst (extractSegmentsByParagraph (documentXml parsed) [] (documentXml parsed) ([], 0))"
    using assms by (rule parseDocx_segments)
  have inv: "\<forall>s \<in> set (segments parsed). segInv (documentXml parsed) s"
    unfolding segs by (rule extract_inv(1)) simp
  then have "\<forall>s \<in> set (segments parsed). translated s = None"
    by (simp add: segInv_def)
  then have same: "applyTranslations (segments parsed) (documentXml parsed) = documentXml parsed"
    by (rule applyTranslations_untranslated)
  then have doc: "documentXml (parsedAfter (writeDocx env parsed outPath)) = documentXml parsed"
    by (simp add: writeDocx_documentXml)
  have "zip_docx (parsedAfter (writeDocx env parsed outPath)) ''word/document.xml'' = Some xml"
    if "xmlBuild env (documentXml parsed) = Inr xml" for xml
    using that same by (simp add: writeDocx_def Let_def split: sum.split option.split)
  with inv doc show ?thesis by (simp add: segInv_def)
qed

theorem round_trip_without_translation_witness:
  "parseDocx exampleEnv ''in.docx'' = Inr exampleParsed \<and>
   documentXml (parsedAfter (writeDocx exampleEnv exampleParsed ''out.docx'')) = foxDoc \<and>
   map (getText (documentXml (parsedAfter (writeDocx exampleEnv exampleParsed ''out.docx''))))
       [foxRef 0, foxRef 1, foxRef 2] =
     map (getText foxDoc) [foxRef 0, foxRef 1, foxRef 2] \<and>
   zip_docx (parsedAfter (writeDocx exampleEnv exampleParsed ''out.docx'')) ''word/document.xml'' =
     Some ''<w:document>built</w:document>''"
proof -
  have b: "xmlBuild exampleEnv foxDoc = Inr ''<w:document>built</w:document>''"
    by (simp add: exampleEnv_def)
  from round_trip_without_translation[OF exampleEnv_parse, of "''out.docx''"] exampleEnv_parse b
  show ?thesis by (simp add: exampleParsed_def foxSegment_def)
qed

section \<open>Properties of parsing and of the archive\<close>

text \<open>
  C7, as the code has it. \<open>parseDocx\<close>, in both revisions of the module, fails with the
  error of \<^verbatim>\<open>JSZip.loadAsync\<close> when the archive cannot be opened, and with the error
  \<^verbatim>\<open>Invalid DOCX: word/document.xml not found\<close> when the archive opens and has no body
  entry. When the archive opens, the body entry is present, its content is read as a string
  and the XML parser returns a tree, \<open>parseDocx\<close> succeeds with the archive, the tree and the
  segments extracted from it. When reading the entry or parsing the XML fails, so does
  \<open>parseDocx\<close>, with that error.
\<close>

theorem parse_outcomes:
  assumes "readFileSync env filePath = Inr buffer"
  shows "(\<forall>e. loadAsync env buffer = Inl e \<longrightarrow>
            parseDocx env filePath = Inl e \<and> parseDocx_flat env filePath = Inl e) \<and>
         (\<forall>z. loadAsync env buffer = Inr z \<and> z ''word/document.xml'' = None \<longrightarrow>
            parseDocx env filePath = Inl (JsError ''Invalid DOCX: word/document.xml not found'') \<and>
            parseDocx_flat env filePath = Inl (JsError ''Invalid DOCX: word/document.xml not found'')) \<and>
         (\<forall>z stored xml doc.
            loadAsync env buffer = Inr z \<and> z ''word/document.xml'' = Some stored \<and>
            asyncString env stored = Inr xml \<and> xmlParse env xml = Inr doc \<longrightarrow>
            parseDocx env filePath =
              Inr \<lparr>zip_docx = z, documentXml = doc,
                   segments = fst (extractSegmentsByParagraph doc [] doc ([], 0))\<rparr> \<and>
            parseDocx_flat env filePath =
              Inr \<lparr>zip_docx = z, documentXml = doc, segments = fst (extractSegments doc ([], 0))\<rparr>) \<and>
         (\<forall>z stored e.
            loadAsync env buffer = Inr z \<and> z ''word/document.xml'' = Some stored \<and>
            asyncString env stored = Inl e \<longrightarrow>
            parseDocx env filePath = Inl e \<and> parseDocx_flat env filePath = Inl e) \<and>
         (\<forall>z stored xml e.
            loadAsync env buffer = Inr z \<and> z ''word/document.xml'' = Some stored \<and>
            asyncString env stored = Inr xml \<and> xmlParse env xml = Inl e \<longrightarrow>
            parseDocx env filePath = Inl e \<and> parseDocx_flat env filePath = Inl e)"
  using assms by (simp add: parseDocx_def parseDocx_flat_def)

theorem parse_outcomes_witness:
  "readFileSync notZipEnv ''in.docx'' = Inr ''PK'' \<and>
   loadAsync notZipEnv ''PK'' = Inl (JsError ''End of data reached'') \<and>
   parseDocx notZipEnv ''in.docx'' = Inl (JsError ''End of data reached'') \<and>
   readFileSync noBodyEnv ''in.docx'' = Inr ''PK'' \<and>
   parseDocx noBodyEnv ''in.docx'' = Inl (JsError ''Invalid DOCX: word/document.xml not found'') \<and>
   readFileSync exampleEnv ''in.docx'' = Inr ''PK'' \<and>
   loadAsync exampleEnv ''PK'' = Inr exampleZip \<and>
   exampleZip ''word/document.xml'' = Some ''<w:document/>'' \<and>
   asyncString exampleEnv ''<w:document/>'' = Inr ''<w:document/>'' \<and>
   xmlParse exampleEnv ''<w:document/>'' = Inr foxDoc \<and>
   parseDocx exampleEnv ''in.docx'' =
     Inr \<lparr>zip_docx = exampleZip, documentXml = foxDoc,
          segments = fst (extractSegmentsByParagraph foxDoc [] foxDoc ([], 0))\<rparr> \<and>
   readFileSync unreadableEnv ''in.docx'' = Inr ''PK'' \<and>
   loadAsync unreadableEnv ''PK'' = Inr exampleZip \<and>
   asyncString unreadableEnv ''<w:document/>'' = Inl (JsError ''Corrupted zip: CRC32 mismatch'') \<and>
   parseDocx unreadableEnv ''in.docx'' = Inl (JsError ''Corrupted zip: CRC32 mismatch'') \<and>
   readFileSync malformedEnv ''in.docx'' = Inr ''PK'' \<and>
   loadAsync malformedEnv ''PK'' = Inr exampleZip \<and>
   asyncString malformedEnv ''<w:document/>'' = Inr ''<w:document/>'' \<and>
   xmlParse malformedEnv ''<w:document/>'' = Inl (JsError ''Comment is not closed.'') \<and>
   parseDocx_flat malformedEnv ''in.docx'' = Inl (JsError ''Comment is not closed.'')"
proof -
  have r1: "readFileSync notZipEnv ''in.docx'' = Inr ''PK''"
    by (simp add: notZipEnv_def exampleEnv_def)
  have l1: "loadAsync notZipEnv ''PK'' = Inl (JsError ''End of data reached'')"
    by (simp add: notZipEnv_def exampleEnv_def)
  have r2: "readFileSync noBodyEnv ''in.docx'' = Inr ''PK''"
    by (simp add: noBodyEnv_def exampleEnv_def)
  have l2: "loadAsync noBodyEnv ''PK'' = Inr [''word/styles.xml'' \<mapsto> ''<w:styles/>''] \<and>
            [''word/styles.xml'' \<mapsto> ''<w:styles/>''] ''word/document.xml'' = None"
    by (simp add: noBodyEnv_def exampleEnv_def)
  have r3: "readFileSync exampleEnv ''in.docx'' = Inr ''PK''"
    by (simp add: exampleEnv_def)
  have l3: "loadAsync exampleEnv ''PK'' = Inr exampleZip \<and>
            exampleZip ''word/document.xml'' = Some ''<w:document/>'' \<and>
            asyncString exampleEnv ''<w:document/>'' = Inr ''<w:document/>'' \<and>
            xmlParse exampleEnv ''<w:document/>'' = Inr foxDoc"
    by (simp add: exampleEnv_def exampleZip_def)
  from parse_outcomes[OF r1] l1
  have p1: "parseDocx notZipEnv ''in.docx'' = Inl (JsError ''End of data reached'')"
    by blast
  from parse_outcomes[OF r2] l2
  have p2: "parseDocx noBodyEnv ''in.docx'' = Inl (JsError ''Invalid DOCX: word/document.xml not found'')"
    by blast
  from parse_outcomes[OF r3] l3
  have p3: "parseDocx exampleEnv ''in.docx'' =
     Inr \<lparr>zip_docx = exampleZip, documentXml = foxDoc,
          segments = fst (extractSegmentsByParagraph foxDoc [] foxDoc ([], 0))\<rparr>"
    by blast
  have r4: "readFileSync unreadableEnv ''in.docx'' = Inr ''PK''"
    by (simp add: unreadableEnv_def exampleEnv_def)
  have l4: "loadAsync unreadableEnv ''PK'' = Inr exampleZip \<and>
            exampleZip ''word/document.xml'' = Some ''<w:document/>'' \<and>
            asyncString unreadableEnv ''<w:document/>'' = Inl (JsError ''Corrupted zip: CRC32 mismatch'')"
    by (simp add: unreadableEnv_def exampleEnv_def exampleZip_def)
  from parse_outcomes[OF r4] l4
  have p4: "parseDocx unreadableEnv ''in.docx'' = Inl (JsError ''Corrupted zip: CRC32 mismatch'')"
    by blast
  have r5: "readFileSync malformedEnv ''in.docx'' = Inr ''PK''"
    by (simp add: malformedEnv_def exampleEnv_def)
  have l5: "loadAsync malformedEnv ''PK'' = Inr exampleZip \<and>
            exampleZip ''word/document.xml'' = Some ''<w:document/>'' \<and>
            asyncString malformedEnv ''<w:document/>'' = Inr ''<w:document/>'' \<and>
            xmlParse malformedEnv ''<w:document/>'' = Inl (JsError ''Comment is not closed.'')"
    by (simp add: malformedEnv_def exampleEnv_def exampleZip_def)
  from parse_outcomes[OF r5] l5
  have p5: "parseDocx_flat malformedEnv ''in.docx'' = Inl (JsError ''Comment is not closed.'')"
    by blast
  from r1 l1 p1 r2 p2 r3 l3 p3 r4 l4 p4 r5 l5 p5 show ?thesis
    by blast
qed

text \<open>
  C7, as the claim has it, fails where the archive opens and has its body entry but the XML
  parser rejects the body: \<open>parseDocx\<close> then fails with the parser's error instead of
  returning a document.
\<close>

theorem parse_of_malformed_body_counterexample:
  "readFileSync malformedEnv ''in.docx'' = Inr ''PK'' \<and>
   loadAsync malformedEnv ''PK'' = Inr exampleZip \<and>
   exampleZip ''word/document.xml'' = Some ''<w:document/>'' \<and>
   parseDocx malformedEnv ''in.docx'' = Inl (JsError ''Comment is not closed.'') \<and>
   parseDocx_flat malformedEnv ''in.docx'' = Inl (JsError ''Comment is not closed.'')"
  by (simp add: parseDocx_def parseDocx_flat_def malformedEnv_def exampleEnv_def exampleZip_def)

text \<open>
  C8. Whatever \<open>writeDocx\<close> does and however it ends, every entry of the archive other than
  \<^verbatim>\<open>word/document.xml\<close> is what it was. When \<open>writeDocx\<close> returns without an error, the
  archive is the input archive with the body entry replaced by the serialised tree, and the
  file written at the output path is what JSZip generates from that archive.
\<close>

theorem write_back_replaces_only_the_body:
  "(\<forall>name. name \<noteq> ''word/document.xml'' \<longrightarrow>
      zip_docx (parsedAfter (writeDocx env parsed outPath)) name = zip_docx parsed name) \<and>
   (thrown (writeDocx env parsed outPath) = None \<longrightarrow>
      (\<exists>newXmlString outputBuffer.
         xmlBuild env (applyTranslations (segments parsed) (documentXml parsed)) = Inr newXmlString \<and>
         zip_docx (parsedAfter (writeDocx env parsed outPath)) =
           (zip_docx parsed)(''word/document.xml'' \<mapsto> newXmlString) \<and>
         generateAsync env (zip_docx (parsedAfter (writeDocx env parsed outPath))) = Inr outputBuffer \<and>
         last (performed (writeDocx env parsed outPath)) = WriteFile outPath outputBuffer))"
  by (auto simp: writeDocx_def Let_def split: sum.splits option.splits)

theorem write_back_replaces_only_the_body_witness:
  "''word/styles.xml'' \<noteq> ''word/document.xml'' \<and>
   zip_docx exampleParsed ''word/styles.xml'' = Some ''<w:styles/>'' \<and>
   zip_docx (parsedAfter (writeDocx exampleEnv exampleParsed ''out.docx'')) ''word/styles.xml'' =
     Some ''<w:styles/>'' \<and>
   thrown (writeDocx exampleEnv exampleParsed ''out.docx'') = None \<and>
   zip_docx (parsedAfter (writeDocx exampleEnv exampleParsed ''out.docx'')) ''word/document.xml'' =
     Some ''<w:document>built</w:document>'' \<and>
   performed (writeDocx exampleEnv exampleParsed ''out.docx'') = [WriteFile ''out.docx'' ''PK-out'']"
proof -
  have n: "''word/styles.xml'' \<noteq> ''word/document.xml''"
    by simp
  have z: "zip_docx exampleParsed ''word/styles.xml'' = Some ''<w:styles/>''"
    by (simp add: exampleParsed_def exampleZip_def)
  have t: "thrown (writeDocx exampleEnv exampleParsed ''out.docx'') = None"
    by (simp add: writeDocx_def exampleEnv_def)
  have b: "xmlBuild exampleEnv d = Inr ''<w:document>built</w:document>''" for d
    by (simp add: exampleEnv_def)
  have g: "generateAsync exampleEnv a = Inr ''PK-out''" for a
    by (simp add: exampleEnv_def)
  have p: "performed (writeDocx exampleEnv exampleParsed ''out.docx'') = [WriteFile ''out.docx'' ''PK-out'']"
    by (simp add: writeDocx_def exampleEnv_def)
  from write_back_replaces_only_the_body[of exampleEnv exampleParsed "''out.docx''"] n z t
  have "zip_docx (parsedAfter (writeDocx exampleEnv exampleParsed ''out.docx'')) ''word/styles.xml'' =
     Some ''<w:styles/>'' \<and>
     zip_docx (parsedAfter (writeDocx exampleEnv exampleParsed ''out.docx'')) ''word/document.xml'' =
     Some ''<w:document>built</w:document>''"
    by (auto simp: b)
  with n z t p show ?thesis
    by blast
qed

section \<open>Lemmas about the pipeline\<close>

lemma job_mutate [simp]: "job (mutate f r) = f (job r)"
  by (simp add: mutate_def)

lemma trace_mutate [simp]: "trace (mutate f r) = trace r @ [Wrote (f (job r))]"
  by (simp add: mutate_def)

lemma job_invoke [simp]: "job (invoke c r) = job r"
  by (simp add: invoke_def)

lemma trace_invoke [simp]: "trace (invoke c r) = trace r @ [Invoked c]"
  by (simp add: invoke_def)

lemma job_effects [simp]: "job (effects es r) = job r"
  by (simp add: effects_def)

lemma trace_effects [simp]: "trace (effects es r) = trace r @ map Effect es"
  by (simp add: effects_def)

lemma job_check [simp]: "job (check c r) = job r"
  by (simp add: check_def)

lemma trace_check [simp]: "trace (check c r) = trace r @ [Checked c (cancelled (job r))]"
  by (simp add: check_def)

lemma job_reject [simp]: "job (reject r) = job r"
  by (simp add: reject_def)

lemma trace_reject [simp]: "trace (reject r) = trace r @ [Rejected]"
  by (simp add: reject_def)

lemma quiet_unobserved: "list_all quiet t \<Longrightarrow> list_all unobserved t"
proof (induction t)
  case Nil
  then show ?case by simp
next
  case (Cons e t)
  then show ?case by (cases e) simp_all
qed

lemma okJob_updateJob:
  "okJob j \<Longrightarrow> p_status patch \<noteq> Some Done \<Longrightarrow> p_status patch \<noteq> Some Error \<Longrightarrow> okJob (updateJob j patch)"
  by (auto simp: okJob_def updateJob_def split: option.splits)

lemma okJob_cancelled [simp]: "okJob (j\<lparr>cancelled := b\<rparr>) = okJob j"
  by (simp add: okJob_def)

lemma okJob_usage [simp]: "okJob (j\<lparr>usage := u, costUSD := c\<rparr>) = okJob j"
  by (simp add: okJob_def)

lemma okJob_totalSegments [simp]: "okJob (j\<lparr>totalSegments := n\<rparr>) = okJob j"
  by (simp add: okJob_def)

lemma okJob_startedAt [simp]: "okJob (j\<lparr>startedAt := t\<rparr>) = okJob j"
  by (simp add: okJob_def)

lemma quiet_Effects:
  "list_all quiet (map Effect es) = list_all (\<lambda>f. case f of WriteFile p b \<Rightarrow> False | _ \<Rightarrow> True) es"
  by (induction es) simp_all

lemma unobserved_Effects [simp]: "list_all unobserved (map Effect es)"
  by (induction es) simp_all

lemma noWriteBack_Effects [simp]: "list_all noWriteBack (map Effect es)"
  by (induction es) simp_all

lemma running_mutate: "running r \<Longrightarrow> okJob (f (job r)) \<Longrightarrow> running (mutate f r)"
  by (simp add: running_def)

lemma running_invoke: "running r \<Longrightarrow> (\<And>p. c \<noteq> WriteDocx p) \<Longrightarrow> running (invoke c r)"
  by (cases c) (auto simp: running_def)

lemma running_awaitStage: "running r \<Longrightarrow> running (awaitStage env s r)"
  by (auto simp: awaitStage_def intro!: running_mutate simp: running_def)

lemma threw_mutate: "threw r \<Longrightarrow> okJob (f (job r)) \<Longrightarrow> threw (mutate f r)"
  by (simp add: threw_def)

lemma threw_awaitStage: "threw r \<Longrightarrow> threw (awaitStage env s r)"
  by (auto simp: awaitStage_def intro!: threw_mutate simp: threw_def)

lemma running_threw: "running r \<Longrightarrow> threw r"
  by (simp add: running_def threw_def)

lemma running_effects:
  "running r \<Longrightarrow> list_all (\<lambda>f. case f of WriteFile p b \<Rightarrow> False | _ \<Rightarrow> True) es \<Longrightarrow> running (effects es r)"
  by (simp add: running_def quiet_Effects)

lemma finished_mutate: "finished r \<Longrightarrow> finished (mutate f r)"
  by (simp add: finished_def)

lemma finished_effects: "finished r \<Longrightarrow> finished (effects es r)"
  by (simp add: finished_def)

lemma finished_invoke: "finished r \<Longrightarrow> finished (invoke c r)"
  by (simp add: finished_def)

lemma finished_awaitStage: "finished r \<Longrightarrow> finished (awaitStage env s r)"
  by (simp add: awaitStage_def finished_mutate)

lemma finished_cleanup: "finished r \<Longrightarrow> finished (cleanup env u w r)"
  by (simp add: cleanup_def finished_effects split: option.split)

lemma running_finished: "running r \<Longrightarrow> finished r"
  by (simp add: running_def finished_def quiet_unobserved)

lemma checkpoint:
  assumes "running r" "c \<noteq> InCatch"
  shows "if cancelled (job (check c r)) then stopped (check c r) else running (check c r)"
  using assms by (auto simp: running_def stopped_def)

lemma writeDocx_thrown_performed:
  "thrown (writeDocx env parsed out) = Some e \<Longrightarrow>
     list_all (\<lambda>f. case f of WriteFile p b \<Rightarrow> False | _ \<Rightarrow> True) (performed (writeDocx env parsed out))"
  by (auto simp: writeDocx_def Let_def split: sum.splits option.splits if_splits)

lemma outcome_step5:
  assumes "running r"
  shows "outcome (step5_pack env baseName up wk parsed r)"
proof -
  define r1 where "r1 = mutate (\<lambda>j. updateJob j (noPatch\<lparr>p_status := Some Packing,
                 p_stepMessage := Some MsgPacking, p_progress := Some 95\<rparr>)) r"
  define out where "out = path_join env (OUTPUT_DIR env) (baseName @ ''-translated.docx'')"
  define w where "w = writeDocx (docx env) parsed out"
  define r2 where "r2 = awaitStage env PackStage (effects (performed w) (invoke (WriteDocx out) r1))"
  have run1: "running r1"
    unfolding r1_def using assms
    by (intro running_mutate okJob_updateJob) (simp_all add: running_def noPatch_def)
  show ?thesis
  proof (cases "thrown w")
    case None
    have "finished r1" using run1 by (rule running_finished)
    then have "finished r2"
      unfolding r2_def by (intro finished_awaitStage finished_effects finished_invoke)
    then show ?thesis
      using None
      by (simp add: outcome_def step5_pack_def Let_def r1_def[symmetric] out_def[symmetric]
          w_def[symmetric] r2_def[symmetric] finished_cleanup finished_mutate)
  next
    case (Some e)
    have "threw r1" using run1 by (rule running_threw)
    then have "threw (invoke (WriteDocx out) r1)"
      by (simp add: threw_def)
    moreover have "list_all (\<lambda>f. case f of WriteFile p b \<Rightarrow> False | _ \<Rightarrow> True) (performed w)"
      using Some unfolding w_def by (rule writeDocx_thrown_performed)
    ultimately have "threw (effects (performed w) (invoke (WriteDocx out) r1))"
      by (simp add: threw_def quiet_Effects)
    then have "threw r2"
      unfolding r2_def by (rule threw_awaitStage)
    then show ?thesis
      using Some
      by (simp add: outcome_def step5_pack_def Let_def r1_def[symmetric] out_def[symmetric]
          w_def[symmetric] r2_def[symmetric])
  qed
qed

lemma outcome_stopped: "stopped r \<Longrightarrow> outcome (r, None)"
  by (simp add: outcome_def)

lemma outcome_threw: "threw r \<Longrightarrow> outcome (r, Some e)"
  by (simp add: outcome_def)

lemma outcome_step4:
  assumes "running r"
  shows "outcome (step4_qa env baseName up wk parsed r)"
proof -
  define res where "res = qaAndRetranslate env (usage (job r), costUSD (job r)) (segments parsed) langs"
  define r1 where "r1 = awaitStage env QaStage
                 (mutate (\<lambda>j. j\<lparr>usage := fst (fst res), costUSD := snd (fst res)\<rparr>)
                    (invoke QaAndRetranslate r))"
  have run1: "running r1"
    unfolding r1_def using assms
    by (intro running_awaitStage running_mutate running_invoke) (simp_all add: running_def)
  show ?thesis
  proof (cases "snd res")
    case (Inl e)
    with run1 show ?thesis
      by (simp add: step4_qa_def Let_def res_def[symmetric] r1_def[symmetric] outcome_threw running_threw)
  next
    case (Inr segs)
    from checkpoint[OF run1, of AfterQa] Inr show ?thesis
      by (simp add: step4_qa_def Let_def res_def[symmetric] r1_def[symmetric] outcome_stopped
          outcome_step5 del: job_check split: if_splits)
  qed
qed

lemma outcome_step3:
  assumes "running r"
  shows "outcome (step3_translate env baseName up wk parsed r)"
proof -
  define r1 where "r1 = mutate (\<lambda>j. updateJob j (noPatch\<lparr>p_status := Some Translating,
                 p_stepMessage := Some MsgTranslating, p_progress := Some 20\<rparr>)) r"
  define res where "res = translateSegments env (usage (job r1), costUSD (job r1)) (segments parsed) langs"
  define r2 where "r2 = awaitStage env TranslateStage
                 (mutate (\<lambda>j. j\<lparr>usage := fst (fst res), costUSD := snd (fst res)\<rparr>)
                    (invoke TranslateSegments r1))"
  have run1: "running r1"
    unfolding r1_def using assms
    by (intro running_mutate okJob_updateJob) (simp_all add: running_def noPatch_def)
  have run2: "running r2"
    unfolding r2_def using run1
    by (intro running_awaitStage running_mutate running_invoke) (simp_all add: running_def)
  show ?thesis
  proof (cases "snd res")
    case (Inl e)
    with run2 show ?thesis
      by (simp add: step3_translate_def Let_def r1_def[symmetric] res_def[symmetric]
          r2_def[symmetric] outcome_threw running_threw)
  next
    case (Inr segs)
    from checkpoint[OF run2, of AfterTranslation] Inr show ?thesis
      by (simp add: step3_translate_def Let_def r1_def[symmetric] res_def[symmetric]
          r2_def[symmetric] outcome_stopped outcome_step4 del: job_check split: if_splits)
  qed
qed

lemma outcome_step2:
  assumes "running r"
  shows "outcome (step2_parse env baseName up wk r)"
proof -
  define r1 where "r1 = mutate (\<lambda>j. updateJob j (noPatch\<lparr>p_status := Some ParsingDocx,
                 p_stepMessage := Some MsgParsing, p_progress := Some 15\<rparr>)) r"
  define r2 where "r2 = awaitStage env ParseStage (invoke (ParseDocx wk) r1)"
  have run1: "running r1"
    unfolding r1_def using assms
    by (intro running_mutate okJob_updateJob) (simp_all add: running_def noPatch_def)
  have run2: "running r2"
    unfolding r2_def using run1
    by (intro running_awaitStage running_invoke) simp_all
  show ?thesis
  proof (cases "parseDocx (docx env) wk")
    case (Inl e)
    with run2 show ?thesis
      by (simp add: step2_parse_def Let_def r1_def[symmetric] r2_def[symmetric] outcome_threw
          running_threw)
  next
    case (Inr parsed)
    define r3 where "r3 = mutate (\<lambda>j. j\<lparr>totalSegments := length (segments parsed)\<rparr>) r2"
    have run3: "running r3"
      unfolding r3_def using run2 by (intro running_mutate) (simp_all add: running_def)
    from checkpoint[OF run3, of AfterParsing] Inr show ?thesis
      by (simp add: step2_parse_def Let_def r1_def[symmetric] r2_def[symmetric]
          r3_def[symmetric] outcome_stopped outcome_step3 del: job_check split: if_splits)
  qed
qed

lemma outcome_tryBlock:
  assumes "okJob j"
  shows "outcome (tryBlock env j up)"
proof -
  define ext where "ext = toLowerCase env (path_extname env (fileName j))"
  define baseName where "baseName = path_basename env (fileName j) ext"
  define r1 where "r1 = mutate (\<lambda>j. j\<lparr>startedAt := Some (Date_now env 0)\<rparr>) \<lparr>job = j, trace = []\<rparr>"
  define wk where "wk = path_join env (WORK_DIR env) (uuidv4 env @ ''.docx'')"
  have run1: "running r1"
    unfolding r1_def using assms by (intro running_mutate) (simp_all add: running_def)
  show ?thesis
  proof (cases "ext = ''.pdf''")
    case True
    define r2 where "r2 = mutate (\<lambda>j. updateJob j (noPatch\<lparr>p_status := Some Converting,
                       p_stepMessage := Some MsgConverting, p_progress := Some 5\<rparr>)) r1"
    define r3 where "r3 = awaitStage env ConvertStage (invoke (ConvertPdfToDocx up wk) r2)"
    have run2: "running r2"
      unfolding r2_def using run1
      by (intro running_mutate okJob_updateJob) (simp_all add: running_def noPatch_def)
    have run3: "running r3"
      unfolding r3_def using run2
      by (intro running_awaitStage running_invoke) simp_all
    show ?thesis
    proof (cases "convertPdfToDocx env up wk")
      case (Some e)
      with run3 True show ?thesis
        by (simp add: tryBlock_def Let_def ext_def[symmetric] baseName_def[symmetric]
            r1_def[symmetric] wk_def[symmetric] r2_def[symmetric] r3_def[symmetric]
            outcome_threw running_threw)
    next
      case None
      from checkpoint[OF run3, of AfterConversion] None True show ?thesis
        by (simp add: tryBlock_def Let_def ext_def[symmetric] baseName_def[symmetric]
            r1_def[symmetric] wk_def[symmetric] r2_def[symmetric] r3_def[symmetric]
            outcome_stopped outcome_step2 del: job_check split: if_splits)
    qed
  next
    case False
    show ?thesis
    proof (cases "fsThrows (docx env) (CopyFile up wk)")
      case (Some e)
      with run1 False show ?thesis
        by (simp add: tryBlock_def Let_def ext_def[symmetric] baseName_def[symmetric]
            r1_def[symmetric] wk_def[symmetric] outcome_threw running_threw)
    next
      case None
      have "running (effects [CopyFile up wk] r1)"
        using run1 by (intro running_effects) simp_all
      with None False show ?thesis
        by (simp add: tryBlock_def Let_def ext_def[symmetric] baseName_def[symmetric]
            r1_def[symmetric] wk_def[symmetric] outcome_step2)
    qed
  qed
qed

lemma processJob_outcome:
  assumes "okJob j"
  shows "stopped (processJob env j up) \<or> finished (processJob env j up) \<or> swallowed (processJob env j up)"
proof (cases "tryBlock env j up")
  case (Pair r ex)
  from outcome_tryBlock[OF assms, of env up] have o: "outcome (r, ex)"
    by (simp add: Pair)
  show ?thesis
  proof (cases ex)
    case None
    with o Pair show ?thesis by (auto simp: processJob_def outcome_def)
  next
    case (Some e)
    with o have t: "threw r" by (simp add: outcome_def)
    show ?thesis
    proof (cases "cancelled (job r)")
      case True
      with t have "swallowed (catchBlock env e r)"
        by (simp add: swallowed_def catchBlock_def Let_def threw_def)
      with Pair Some show ?thesis by (simp add: processJob_def)
    next
      case False
      with t have "finished (catchBlock env e r)"
        by (simp add: finished_def catchBlock_def Let_def threw_def quiet_unobserved)
      with Pair Some show ?thesis by (simp add: processJob_def)
    qed
  qed
qed

lemma quiet_set:
  "list_all quiet pre \<Longrightarrow>
     (\<forall>c. Checked c True \<notin> set pre) \<and> (\<forall>j. Wrote j \<in> set pre \<longrightarrow> okJob j) \<and>
     (\<forall>p b. Effect (WriteFile p b) \<notin> set pre)"
  by (auto simp: list_all_iff)

lemma noWriteBack_set: "list_all noWriteBack pre \<Longrightarrow> \<forall>p. Invoked (WriteDocx p) \<notin> set pre"
  by (auto simp: list_all_iff)

lemma unobserved_set: "list_all unobserved t \<Longrightarrow> Checked c True \<notin> set t"
  by (auto simp: list_all_iff)

lemma progressAt_Effects [simp]: "progressAt p (map Effect es @ t) = progressAt p t"
  by (induction es) simp_all

lemma progressHistory_Effects [simp]: "progressHistory p (map Effect es @ t) = progressHistory p t"
  by (induction es) simp_all

lemma observedLast_check: "cancelled (job r) \<Longrightarrow> observedLast (check c r)"
  by (simp add: observedLast_def)

lemma cancelled_cleanup [simp]: "job (cleanup env u w r) = job r"
  by (simp add: cleanup_def split: option.split)

lemma complete_step5:
  assumes "\<not> cancelled (job r)"
  shows "complete env (step5_pack env baseName up wk parsed r)"
  using assms
  by (simp add: complete_def step5_pack_def Let_def awaitStage_def updateJob_def finishJob_def
      split: option.split)

lemma complete_step4: "complete env (step4_qa env baseName up wk parsed r)"
proof -
  define res where "res = qaAndRetranslate env (usage (job r), costUSD (job r)) (segments parsed) langs"
  define r1 where "r1 = awaitStage env QaStage
                 (mutate (\<lambda>j. j\<lparr>usage := fst (fst res), costUSD := snd (fst res)\<rparr>)
                    (invoke QaAndRetranslate r))"
  show ?thesis
  proof (cases "snd res")
    case (Inl e)
    then show ?thesis
      by (simp add: step4_qa_def Let_def res_def[symmetric] r1_def[symmetric] complete_def)
  next
    case (Inr segs)
    show ?thesis
    proof (cases "cancelled (job r1)")
      case True
      with Inr show ?thesis
        by (simp add: step4_qa_def Let_def res_def[symmetric] r1_def[symmetric] complete_def
            observedLast_check)
    next
      case False
      then have "complete env (step5_pack env baseName up wk (parsed\<lparr>segments := segs\<rparr>) (check AfterQa r1))"
        by (intro complete_step5) simp
      with Inr False show ?thesis
        by (simp add: step4_qa_def Let_def res_def[symmetric] r1_def[symmetric])
    qed
  qed
qed

lemma complete_step3: "complete env (step3_translate env baseName up wk parsed r)"
proof -
  define r1 where "r1 = mutate (\<lambda>j. updateJob j (noPatch\<lparr>p_status := Some Translating,
                 p_stepMessage := Some MsgTranslating, p_progress := Some 20\<rparr>)) r"
  define res where "res = translateSegments env (usage (job r1), costUSD (job r1)) (segments parsed) langs"
  define r2 where "r2 = awaitStage env TranslateStage
                 (mutate (\<lambda>j. j\<lparr>usage := fst (fst res), costUSD := snd (fst res)\<rparr>)
                    (invoke TranslateSegments r1))"
  show ?thesis
  proof (cases "snd res")
    case (Inl e)
    then show ?thesis
      by (simp add: step3_translate_def Let_def r1_def[symmetric] res_def[symmetric]
          r2_def[symmetric] complete_def)
  next
    case (Inr segs)
    show ?thesis
    proof (cases "cancelled (job r2)")
      case True
      with Inr show ?thesis
        by (simp add: step3_translate_def Let_def r1_def[symmetric] res_def[symmetric]
            r2_def[symmetric] complete_def observedLast_check)
    next
      case False
      with Inr show ?thesis
        by (simp add: step3_translate_def Let_def r1_def[symmetric] res_def[symmetric]
            r2_def[symmetric] complete_step4)
    qed
  qed
qed

lemma complete_step2: "complete env (step2_parse env baseName up wk r)"
proof -
  define r1 where "r1 = mutate (\<lambda>j. updateJob j (noPatch\<lparr>p_status := Some ParsingDocx,
                 p_stepMessage := Some MsgParsing, p_progress := Some 15\<rparr>)) r"
  define r2 where "r2 = awaitStage env ParseStage (invoke (ParseDocx wk) r1)"
  show ?thesis
  proof (cases "parseDocx (docx env) wk")
    case (Inl e)
    then show ?thesis
      by (simp add: step2_parse_def Let_def r1_def[symmetric] r2_def[symmetric] complete_def)
  next
    case (Inr parsed)
    show ?thesis
    proof (cases "cancelled (job r2)")
      case True
      with Inr show ?thesis
        by (simp add: step2_parse_def Let_def r1_def[symmetric] r2_def[symmetric] complete_def
            observedLast_check)
    next
      case False
      with Inr show ?thesis
        by (simp add: step2_parse_def Let_def r1_def[symmetric] r2_def[symmetric] complete_step3)
    qed
  qed
qed

lemma complete_tryBlock: "complete env (tryBlock env j up)"
proof -
  define ext where "ext = toLowerCase env (path_extname env (fileName j))"
  define baseName where "baseName = path_basename env (fileName j) ext"
  define r1 where "r1 = mutate (\<lambda>j. j\<lparr>startedAt := Some (Date_now env 0)\<rparr>) \<lparr>job = j, trace = []\<rparr>"
  define wk where "wk = path_join env (WORK_DIR env) (uuidv4 env @ ''.docx'')"
  show ?thesis
  proof (cases "ext = ''.pdf''")
    case True
    define r2 where "r2 = mutate (\<lambda>j. updateJob j (noPatch\<lparr>p_status := Some Converting,
                       p_stepMessage := Some MsgConverting, p_progress := Some 5\<rparr>)) r1"
    define r3 where "r3 = awaitStage env ConvertStage (invoke (ConvertPdfToDocx up wk) r2)"
    show ?thesis
    proof (cases "convertPdfToDocx env up wk")
      case (Some e)
      with True show ?thesis
        by (simp add: tryBlock_def Let_def ext_def[symmetric] baseName_def[symmetric]
            r1_def[symmetric] wk_def[symmetric] r2_def[symmetric] r3_def[symmetric] complete_def)
    next
      case None
      show ?thesis
      proof (cases "cancelled (job r3)")
        case c: True
        with None True show ?thesis
          by (simp add: tryBlock_def Let_def ext_def[symmetric] baseName_def[symmetric]
              r1_def[symmetric] wk_def[symmetric] r2_def[symmetric] r3_def[symmetric]
              complete_def observedLast_check)
      next
        case c: False
        with None True show ?thesis
          by (simp add: tryBlock_def Let_def ext_def[symmetric] baseName_def[symmetric]
              r1_def[symmetric] wk_def[symmetric] r2_def[symmetric] r3_def[symmetric]
              complete_step2)
      qed
    qed
  next
    case False
    then show ?thesis
      by (cases "fsThrows (docx env) (CopyFile up wk)")
         (simp_all add: tryBlock_def Let_def ext_def[symmetric] baseName_def[symmetric]
            r1_def[symmetric] wk_def[symmetric] complete_step2, simp add: complete_def)
  qed
qed

lemma processJob_complete:
  assumes "cancelled (job (processJob env j up))" "\<not> cancelDuring env PackStage"
  shows "observedLast (processJob env j up)"
proof (cases "tryBlock env j up")
  case (Pair r ex)
  from complete_tryBlock[of env j up] have c: "complete env (r, ex)"
    by (simp add: Pair)
  show ?thesis
  proof (cases ex)
    case None
    with c Pair assms show ?thesis by (auto simp: processJob_def complete_def)
  next
    case (Some e)
    show ?thesis
    proof (cases "cancelled (job r)")
      case True
      with Pair Some show ?thesis
        by (simp add: processJob_def catchBlock_def Let_def observedLast_def)
    next
      case False
      with Pair Some assms(1) show ?thesis
        by (auto simp: processJob_def catchBlock_def Let_def updateJob_def split: if_splits)
    qed
  qed
qed

section \<open>The calls of the stages\<close>

text \<open>The definitions of the pipeline, and of the paths it computes, for unfolding.\<close>

lemmas pipeline_defs = processJob_def tryBlock_def step2_parse_def step3_translate_def step4_qa_def
  step5_pack_def catchBlock_def Let_def awaitStage_def updateJob_def finishJob_def noPatch_def cleanup_def

lemmas call_paths = pdfInput_def workingPath_def outputPathOf_def

lemma failure_None: "failure res = None \<longleftrightarrow> (\<exists>v. res = Inr v)"
  by (cases res) (simp_all add: failure_def)

lemma failure_Some: "failure res = Some e \<longleftrightarrow> res = Inl e"
  by (cases res) (simp_all add: failure_def)

lemma convertCallE:
  assumes "convertCall env j up = Some (b, x)"
  obtains "toLowerCase env (path_extname env (fileName j)) = ''.pdf''" "b = cancelled j"
    "convertPdfToDocx env up (path_join env (WORK_DIR env) (uuidv4 env @ ''.docx'')) = x"
  using assms by (auto simp: convertCall_def call_paths split: if_splits)

lemma enteredE:
  assumes "entered env j up"
  obtains (pdf) "toLowerCase env (path_extname env (fileName j)) = ''.pdf''" "\<not> cancelled j"
      "convertPdfToDocx env up (path_join env (WORK_DIR env) (uuidv4 env @ ''.docx'')) = None"
      "\<not> cancelDuring env ConvertStage"
  | (docx) "toLowerCase env (path_extname env (fileName j)) \<noteq> ''.pdf''"
      "fsThrows (docx env) (CopyFile up (path_join env (WORK_DIR env) (uuidv4 env @ ''.docx''))) = None"
  using assms by (auto simp: entered_def convertCall_def call_paths split: if_splits)

lemma parseCallE:
  assumes "parseCall env j up = Some (b, x)"
  obtains "entered env j up" "b = cancelled j"
    "x = failure (parseDocx (docx env) (path_join env (WORK_DIR env) (uuidv4 env @ ''.docx'')))"
  using assms by (auto simp: parseCall_def call_paths split: if_splits)

lemma translateCallE:
  assumes "translateCall env j up = Some (b, x)"
  obtains parsed where "entered env j up" "\<not> cancelled j" "\<not> cancelDuring env ParseStage"
    "parseDocx (docx env) (path_join env (WORK_DIR env) (uuidv4 env @ ''.docx'')) = Inr parsed"
    "\<not> b" "x = failure (snd (translateSegments env (usage j, costUSD j) (segments parsed) langs))"
proof -
  from assms have p: "parseCall env j up = Some (False, None)" and c: "\<not> cancelDuring env ParseStage"
    by (auto simp: translateCall_def split: if_splits)
  from p have e: "entered env j up" and n: "\<not> cancelled j"
    and f: "failure (parseDocx (docx env) (path_join env (WORK_DIR env) (uuidv4 env @ ''.docx''))) = None"
    by (auto elim!: parseCallE)
  from f obtain parsed where
    q: "parseDocx (docx env) (path_join env (WORK_DIR env) (uuidv4 env @ ''.docx'')) = Inr parsed"
    by (auto simp: failure_None)
  with assms p c have "\<not> b"
    "x = failure (snd (translateSegments env (usage j, costUSD j) (segments parsed) langs))"
    by (simp_all add: translateCall_def call_paths)
  with e n c q show ?thesis by (rule that)
qed

lemma qaCallE:
  assumes "qaCall env j up = Some (b, x)"
  obtains parsed m1 segs1 where "entered env j up" "\<not> cancelled j" "\<not> cancelDuring env ParseStage"
    "parseDocx (docx env) (path_join env (WORK_DIR env) (uuidv4 env @ ''.docx'')) = Inr parsed"
    "\<not> cancelDuring env TranslateStage"
    "translateSegments env (usage j, costUSD j) (segments parsed) langs = (m1, Inr segs1)"
    "\<not> b" "x = failure (snd (qaAndRetranslate env m1 segs1 langs))"
proof -
  from assms have p: "translateCall env j up = Some (False, None)" and c: "\<not> cancelDuring env TranslateStage"
    by (auto simp: qaCall_def split: if_splits)
  from p obtain parsed where e: "entered env j up" "\<not> cancelled j" "\<not> cancelDuring env ParseStage"
    and q: "parseDocx (docx env) (path_join env (WORK_DIR env) (uuidv4 env @ ''.docx'')) = Inr parsed"
    and f: "None = failure (snd (translateSegments env (usage j, costUSD j) (segments parsed) langs))"
    by (rule translateCallE)
  from f have "failure (snd (translateSegments env (usage j, costUSD j) (segments parsed) langs)) = None"
    by simp
  then obtain segs1 where
    "snd (translateSegments env (usage j, costUSD j) (segments parsed) langs) = Inr segs1"
    by (auto simp: failure_None)
  then have t: "translateSegments env (usage j, costUSD j) (segments parsed) langs =
      (fst (translateSegments env (usage j, costUSD j) (segments parsed) langs), Inr segs1)"
    by (simp add: prod_eq_iff)
  with assms p c q have "\<not> b"
    "x = failure (snd (qaAndRetranslate env
           (fst (translateSegments env (usage j, costUSD j) (segments parsed) langs)) segs1 langs))"
    by (simp_all add: qaCall_def call_paths split: prod.splits sum.splits)
  with e q c t show ?thesis by (rule that)
qed

lemma packCallE:
  assumes "packCall env j up = Some (b, x)"
  obtains parsed m1 segs1 m2 segs2 where "entered env j up" "\<not> cancelled j"
    "\<not> cancelDuring env ParseStage"
    "parseDocx (docx env) (path_join env (WORK_DIR env) (uuidv4 env @ ''.docx'')) = Inr parsed"
    "\<not> cancelDuring env TranslateStage"
    "translateSegments env (usage j, costUSD j) (segments parsed) langs = (m1, Inr segs1)"
    "\<not> cancelDuring env QaStage"
    "qaAndRetranslate env m1 segs1 langs = (m2, Inr segs2)"
    "\<not> b"
    "x = thrown (writeDocx (docx env) (parsed\<lparr>segments := segs2\<rparr>)
           (path_join env (OUTPUT_DIR env)
              (path_basename env (fileName j) (toLowerCase env (path_extname env (fileName j)))
                 @ ''-translated.docx'')))"
proof -
  from assms have p: "qaCall env j up = Some (False, None)" and c: "\<not> cancelDuring env QaStage"
    by (auto simp: packCall_def split: if_splits)
  from p obtain parsed m1 segs1 where e: "entered env j up" "\<not> cancelled j" "\<not> cancelDuring env ParseStage"
    and q: "parseDocx (docx env) (path_join env (WORK_DIR env) (uuidv4 env @ ''.docx'')) = Inr parsed"
    and ct: "\<not> cancelDuring env TranslateStage"
    and t: "translateSegments env (usage j, costUSD j) (segments parsed) langs = (m1, Inr segs1)"
    and f: "None = failure (snd (qaAndRetranslate env m1 segs1 langs))"
    by (rule qaCallE)
  from f have "failure (snd (qaAndRetranslate env m1 segs1 langs)) = None"
    by simp
  then obtain segs2 where "snd (qaAndRetranslate env m1 segs1 langs) = Inr segs2"
    by (auto simp: failure_None)
  then have a: "qaAndRetranslate env m1 segs1 langs = (fst (qaAndRetranslate env m1 segs1 langs), Inr segs2)"
    by (simp add: prod_eq_iff)
  with assms p c q t have "\<not> b"
    "x = thrown (writeDocx (docx env) (parsed\<lparr>segments := segs2\<rparr>)
           (path_join env (OUTPUT_DIR env)
              (path_basename env (fileName j) (toLowerCase env (path_extname env (fileName j)))
                 @ ''-translated.docx'')))"
    by (simp_all add: packCall_def call_paths split: prod.splits sum.splits)
  with e q ct t c a show ?thesis by (rule that)
qed

lemmas outcome_splits = sum.splits option.splits prod.splits if_splits

lemma nextRead_Effects [simp]: "nextRead (map Effect es @ t) = nextRead t"
  by (induction es) simp_all

lemma afterStage_Effects [simp]: "afterStage s (map Effect es @ t) = afterStage s t"
  by (induction es) simp_all

lemma convert_returns:
  assumes "convertCall env j up = Some (b, None)"
  shows "nextRead (afterStage ConvertStage (trace (processJob env j up))) =
           Some (AfterConversion, b \<or> cancelDuring env ConvertStage)"
  using assms
  by (elim convertCallE) (simp add: pipeline_defs split: outcome_splits)

lemma convert_throws:
  assumes "convertCall env j up = Some (b, Some e)"
  shows "caught env j up e (b \<or> cancelDuring env ConvertStage) \<and>
         status (job (fst (tryBlock env j up))) = Converting \<and>
         nextRead (afterStage ConvertStage (trace (processJob env j up))) =
           Some (InCatch, b \<or> cancelDuring env ConvertStage)"
  using assms
  by (elim convertCallE) (simp add: caught_def pipeline_defs split: outcome_splits)

lemma parse_returns:
  assumes "parseCall env j up = Some (b, None)"
  shows "nextRead (afterStage ParseStage (trace (processJob env j up))) =
           Some (AfterParsing, b \<or> cancelDuring env ParseStage)"
proof -
  from assms have e: "entered env j up" and b: "b = cancelled j"
    and x: "None = failure (parseDocx (docx env) (path_join env (WORK_DIR env) (uuidv4 env @ ''.docx'')))"
    by (auto elim!: parseCallE)
  from x have "failure (parseDocx (docx env) (path_join env (WORK_DIR env) (uuidv4 env @ ''.docx''))) = None"
    by simp
  then obtain parsed where
    p: "parseDocx (docx env) (path_join env (WORK_DIR env) (uuidv4 env @ ''.docx'')) = Inr parsed"
    by (auto simp: failure_None)
  from e show ?thesis
  proof (cases rule: enteredE)
    case pdf
    with b p show ?thesis
      by (simp add: pipeline_defs split: outcome_splits)
  next
    case docx
    with b p show ?thesis
      by (simp add: pipeline_defs split: outcome_splits)
  qed
qed

lemma parse_throws:
  assumes "parseCall env j up = Some (b, Some e)"
  shows "caught env j up e (b \<or> cancelDuring env ParseStage) \<and>
         status (job (fst (tryBlock env j up))) = ParsingDocx \<and>
         nextRead (afterStage ParseStage (trace (processJob env j up))) =
           Some (InCatch, b \<or> cancelDuring env ParseStage)"
proof -
  from assms have en: "entered env j up" and b: "b = cancelled j"
    and p: "parseDocx (docx env) (path_join env (WORK_DIR env) (uuidv4 env @ ''.docx'')) = Inl e"
    by (auto elim!: parseCallE simp: failure_Some dest: sym)
  from en show ?thesis
  proof (cases rule: enteredE)
    case pdf
    with b p show ?thesis
      by (simp add: caught_def pipeline_defs split: outcome_splits)
  next
    case docx
    with b p show ?thesis
      by (simp add: caught_def pipeline_defs split: outcome_splits)
  qed
qed

lemma translate_returns:
  assumes "translateCall env j up = Some (b, None)"
  shows "nextRead (afterStage TranslateStage (trace (processJob env j up))) =
           Some (AfterTranslation, b \<or> cancelDuring env TranslateStage)"
proof -
  from assms obtain parsed where en: "entered env j up" and f: "\<not> cancelled j" "\<not> cancelDuring env ParseStage"
    "parseDocx (docx env) (path_join env (WORK_DIR env) (uuidv4 env @ ''.docx'')) = Inr parsed" "\<not> b"
    and x: "None = failure (snd (translateSegments env (usage j, costUSD j) (segments parsed) langs))"
    by (rule translateCallE)
  from x have "failure (snd (translateSegments env (usage j, costUSD j) (segments parsed) langs)) = None"
    by simp
  then obtain segs1 where
    t: "snd (translateSegments env (usage j, costUSD j) (segments parsed) langs) = Inr segs1"
    by (auto simp: failure_None)
  from en show ?thesis
  proof (cases rule: enteredE)
    case pdf
    with f t show ?thesis
      by (simp add: pipeline_defs split: outcome_splits)
  next
    case docx
    with f t show ?thesis
      by (simp add: pipeline_defs split: outcome_splits)
  qed
qed

lemma translate_throws:
  assumes "translateCall env j up = Some (b, Some e)"
  shows "caught env j up e (b \<or> cancelDuring env TranslateStage) \<and>
         status (job (fst (tryBlock env j up))) = Translating \<and>
         nextRead (afterStage TranslateStage (trace (processJob env j up))) =
           Some (InCatch, b \<or> cancelDuring env TranslateStage)"
proof -
  from assms obtain parsed where en: "entered env j up" and f: "\<not> cancelled j" "\<not> cancelDuring env ParseStage"
    "parseDocx (docx env) (path_join env (WORK_DIR env) (uuidv4 env @ ''.docx'')) = Inr parsed" "\<not> b"
    and x: "Some e = failure (snd (translateSegments env (usage j, costUSD j) (segments parsed) langs))"
    by (rule translateCallE)
  from x have "failure (snd (translateSegments env (usage j, costUSD j) (segments parsed) langs)) = Some e"
    by simp
  then have t: "snd (translateSegments env (usage j, costUSD j) (segments parsed) langs) = Inl e"
    by (simp add: failure_Some)
  from en show ?thesis
  proof (cases rule: enteredE)
    case pdf
    with f t show ?thesis
      by (simp add: caught_def pipeline_defs split: outcome_splits)
  next
    case docx
    with f t show ?thesis
      by (simp add: caught_def pipeline_defs split: outcome_splits)
  qed
qed

lemma qa_returns:
  assumes "qaCall env j up = Some (b, None)"
  shows "nextRead (afterStage QaStage (trace (processJob env j up))) =
           Some (AfterQa, b \<or> cancelDuring env QaStage)"
proof -
  from assms obtain parsed m1 segs1 where en: "entered env j up"
    and f: "\<not> cancelled j" "\<not> cancelDuring env ParseStage"
    "parseDocx (docx env) (path_join env (WORK_DIR env) (uuidv4 env @ ''.docx'')) = Inr parsed"
    "\<not> cancelDuring env TranslateStage"
    "translateSegments env (usage j, costUSD j) (segments parsed) langs = (m1, Inr segs1)" "\<not> b"
    and x: "None = failure (snd (qaAndRetranslate env m1 segs1 langs))"
    by (rule qaCallE)
  from x have "failure (snd (qaAndRetranslate env m1 segs1 langs)) = None"
    by simp
  then obtain segs2 where t: "snd (qaAndRetranslate env m1 segs1 langs) = Inr segs2"
    by (auto simp: failure_None)
  from en show ?thesis
  proof (cases rule: enteredE)
    case pdf
    with f t show ?thesis
      by (simp add: pipeline_defs split: outcome_splits)
  next
    case docx
    with f t show ?thesis
      by (simp add: pipeline_defs split: outcome_splits)
  qed
qed

lemma qa_throws:
  assumes "qaCall env j up = Some (b, Some e)"
  shows "caught env j up e (b \<or> cancelDuring env QaStage) \<and>
         status (job (fst (tryBlock env j up))) = Translating \<and>
         nextRead (afterStage QaStage (trace (processJob env j up))) =
           Some (InCatch, b \<or> cancelDuring env QaStage)"
proof -
  from assms obtain parsed m1 segs1 where en: "entered env j up"
    and f: "\<not> cancelled j" "\<not> cancelDuring env ParseStage"
    "parseDocx (docx env) (path_join env (WORK_DIR env) (uuidv4 env @ ''.docx'')) = Inr parsed"
    "\<not> cancelDuring env TranslateStage"
    "translateSegments env (usage j, costUSD j) (segments parsed) langs = (m1, Inr segs1)" "\<not> b"
    and x: "Some e = failure (snd (qaAndRetranslate env m1 segs1 langs))"
    by (rule qaCallE)
  from x have "failure (snd (qaAndRetranslate env m1 segs1 langs)) = Some e"
    by simp
  then have t: "snd (qaAndRetranslate env m1 segs1 langs) = Inl e"
    by (simp add: failure_Some)
  from en show ?thesis
  proof (cases rule: enteredE)
    case pdf
    with f t show ?thesis
      by (simp add: caught_def pipeline_defs split: outcome_splits)
  next
    case docx
    with f t show ?thesis
      by (simp add: caught_def pipeline_defs split: outcome_splits)
  qed
qed

lemma pack_returns:
  assumes "packCall env j up = Some (b, None)"
  shows "nextRead (afterStage PackStage (trace (processJob env j up))) = None \<and>
         status (job (processJob env j up)) = Done \<and>
         outputPath (job (processJob env j up)) = Some (outputPathOf env j) \<and>
         cancelled (job (processJob env j up)) = cancelDuring env PackStage"
proof -
  from assms obtain parsed m1 segs1 m2 segs2 where en: "entered env j up"
    and f: "\<not> cancelled j" "\<not> cancelDuring env ParseStage"
    "parseDocx (docx env) (path_join env (WORK_DIR env) (uuidv4 env @ ''.docx'')) = Inr parsed"
    "\<not> cancelDuring env TranslateStage"
    "translateSegments env (usage j, costUSD j) (segments parsed) langs = (m1, Inr segs1)"
    "\<not> cancelDuring env QaStage"
    "qaAndRetranslate env m1 segs1 langs = (m2, Inr segs2)" "\<not> b"
    and x: "None = thrown (writeDocx (docx env) (parsed\<lparr>segments := segs2\<rparr>)
           (path_join env (OUTPUT_DIR env)
              (path_basename env (fileName j) (toLowerCase env (path_extname env (fileName j)))
                 @ ''-translated.docx'')))"
    by (rule packCallE)
  note t = x[symmetric]
  from en show ?thesis
  proof (cases rule: enteredE)
    case pdf
    with f t show ?thesis
      by (simp add: pipeline_defs call_paths split: outcome_splits)
  next
    case docx
    with f t show ?thesis
      by (simp add: pipeline_defs call_paths split: outcome_splits)
  qed
qed

lemma pack_throws:
  assumes "packCall env j up = Some (b, Some e)"
  shows "caught env j up e (b \<or> cancelDuring env PackStage) \<and>
         status (job (fst (tryBlock env j up))) = Packing \<and>
         nextRead (afterStage PackStage (trace (processJob env j up))) =
           Some (InCatch, b \<or> cancelDuring env PackStage)"
proof -
  from assms obtain parsed m1 segs1 m2 segs2 where en: "entered env j up"
    and f: "\<not> cancelled j" "\<not> cancelDuring env ParseStage"
    "parseDocx (docx env) (path_join env (WORK_DIR env) (uuidv4 env @ ''.docx'')) = Inr parsed"
    "\<not> cancelDuring env TranslateStage"
    "translateSegments env (usage j, costUSD j) (segments parsed) langs = (m1, Inr segs1)"
    "\<not> cancelDuring env QaStage"
    "qaAndRetranslate env m1 segs1 langs = (m2, Inr segs2)" "\<not> b"
    and x: "Some e = thrown (writeDocx (docx env) (parsed\<lparr>segments := segs2\<rparr>)
           (path_join env (OUTPUT_DIR env)
              (path_basename env (fileName j) (toLowerCase env (path_extname env (fileName j)))
                 @ ''-translated.docx'')))"
    by (rule packCallE)
  note t = x[symmetric]
  from en show ?thesis
  proof (cases rule: enteredE)
    case pdf
    with f t show ?thesis
      by (simp add: caught_def pipeline_defs split: outcome_splits)
  next
    case docx
    with f t show ?thesis
      by (simp add: caught_def pipeline_defs split: outcome_splits)
  qed
qed


section \<open>Properties of the pipeline\<close>

lemma observed_stop:
  assumes "Checked c True \<in> set (trace (processJob env j up))"
    and "status j \<noteq> Done" and "status j \<noteq> Error" and "outputPath j = None"
  shows "\<exists>pre. trace (processJob env j up) = pre @ [Checked c True] \<and>
           (\<forall>c'. Checked c' True \<notin> set pre) \<and>
           (\<forall>j'. Wrote j' \<in> set pre \<longrightarrow>
                 status j' \<noteq> Done \<and> status j' \<noteq> Error \<and> outputPath j' = None) \<and>
           (\<forall>p b. Effect (WriteFile p b) \<notin> set pre) \<and>
           (c \<noteq> InCatch \<longrightarrow> (\<forall>p. Invoked (WriteDocx p) \<notin> set pre)) \<and>
           status (job (processJob env j up)) \<noteq> Done \<and>
           status (job (processJob env j up)) \<noteq> Error \<and>
           outputPath (job (processJob env j up)) = None"
proof -
  let ?r = "processJob env j up"
  from assms(2-4) have "okJob j" by (simp add: okJob_def)
  then consider "stopped ?r" | "finished ?r" | "swallowed ?r"
    using processJob_outcome by blast
  then show ?thesis
  proof cases
    case 1
    then obtain pre c0 where p: "trace ?r = pre @ [Checked c0 True]" "c0 \<noteq> InCatch"
      "list_all quiet pre" "list_all noWriteBack pre" "okJob (job ?r)"
      unfolding stopped_def by blast
    from p(3) have q: "\<forall>c. Checked c True \<notin> set pre" by (simp add: quiet_set)
    with assms(1) p(1) have "c = c0" by auto
    with p quiet_set[OF p(3)] noWriteBack_set[OF p(4)] show ?thesis
      by (auto simp: okJob_def)
  next
    case 2
    with assms(1) show ?thesis by (simp add: finished_def unobserved_set)
  next
    case 3
    then obtain pre where p: "trace ?r = pre @ [Checked InCatch True]"
      "list_all quiet pre" "okJob (job ?r)"
      unfolding swallowed_def by blast
    from p(2) have q: "\<forall>c. Checked c True \<notin> set pre" by (simp add: quiet_set)
    with assms(1) p(1) have "c = InCatch" by auto
    with p quiet_set[OF p(2)] show ?thesis
      by (auto simp: okJob_def)
  qed
qed

lemma docxJob_fresh:
  "status docxJob \<noteq> Done \<and> status docxJob \<noteq> Error \<and> outputPath docxJob = None"
  by (simp add: docxJob_def createJob_def)

text \<open>
  C5, as the code has it. \<open>processJob\<close> reads \<^verbatim>\<open>job.cancelled\<close> after the conversion, after
  parsing, after translation and after QA, each time the stage has returned, and in the
  \<^verbatim>\<open>catch\<close> block when a stage throws. It does not read the flag after packing has returned.

  The first part: whenever the flag is read as set, the run stops there. The read is the
  last event of the run; of a job that was neither done nor failed and had no output path,
  no write of the run has made it done or failed or given it an output path, no output
  file has been written, and, unless the read is the one in the \<^verbatim>\<open>catch\<close> block, \<^verbatim>\<open>writeDocx\<close>
  has not been called.

  The second part: if the flag is set when the run returns and no request arrived while
  the output was packed, the run ended by reading the flag as set.

  The third part is the checkpoint after a stage. When stage \<open>s\<close> is called with the flag
  \<open>b\<close> and returns, the next thing the run does, apart from writes to the job and effects
  on the file system, is to read the flag at the checkpoint after \<open>s\<close>, and the value read
  is set if the flag was set before or a request arrived while the stage was awaited;
  after packing no read follows. The fourth part: when the stage throws, the next read is
  the one in the \<^verbatim>\<open>catch\<close> block, with the same value. The fifth part: when packing returns,
  the job becomes done with its output path set, whether or not a request arrived while the
  output was packed; the flag then stays set on a job that is done.
\<close>

theorem cancellation_checkpoints:
  "(Checked c True \<in> set (trace (processJob env j up)) \<and>
    status j \<noteq> Done \<and> status j \<noteq> Error \<and> outputPath j = None \<longrightarrow>
      (\<exists>pre. trace (processJob env j up) = pre @ [Checked c True] \<and>
         (\<forall>c'. Checked c' True \<notin> set pre) \<and>
         (\<forall>j'. Wrote j' \<in> set pre \<longrightarrow>
               status j' \<noteq> Done \<and> status j' \<noteq> Error \<and> outputPath j' = None) \<and>
         (\<forall>p b. Effect (WriteFile p b) \<notin> set pre) \<and>
         (c \<noteq> InCatch \<longrightarrow> (\<forall>p. Invoked (WriteDocx p) \<notin> set pre)) \<and>
         status (job (processJob env j up)) \<noteq> Done \<and>
         status (job (processJob env j up)) \<noteq> Error \<and>
         outputPath (job (processJob env j up)) = None)) \<and>
   (cancelled (job (processJob env j up)) \<and> \<not> cancelDuring env PackStage \<longrightarrow>
      (\<exists>pre c'. trace (processJob env j up) = pre @ [Checked c' True])) \<and>
   (called env j up s = Some (b, None) \<longrightarrow>
      nextRead (afterStage s (trace (processJob env j up))) =
        map_option (\<lambda>k. (k, b \<or> cancelDuring env s)) (checkpointAfter s)) \<and>
   (called env j up s = Some (b, Some e) \<longrightarrow>
      nextRead (afterStage s (trace (processJob env j up))) = Some (InCatch, b \<or> cancelDuring env s)) \<and>
   (called env j up PackStage = Some (b, None) \<longrightarrow>
      status (job (processJob env j up)) = Done \<and>
      outputPath (job (processJob env j up)) = Some (outputPathOf env j) \<and>
      cancelled (job (processJob env j up)) = cancelDuring env PackStage)"
proof (intro conjI impI)
  assume "Checked c True \<in> set (trace (processJob env j up)) \<and>
    status j \<noteq> Done \<and> status j \<noteq> Error \<and> outputPath j = None"
  then show "\<exists>pre. trace (processJob env j up) = pre @ [Checked c True] \<and>
         (\<forall>c'. Checked c' True \<notin> set pre) \<and>
         (\<forall>j'. Wrote j' \<in> set pre \<longrightarrow>
               status j' \<noteq> Done \<and> status j' \<noteq> Error \<and> outputPath j' = None) \<and>
         (\<forall>p b. Effect (WriteFile p b) \<notin> set pre) \<and>
         (c \<noteq> InCatch \<longrightarrow> (\<forall>p. Invoked (WriteDocx p) \<notin> set pre)) \<and>
         status (job (processJob env j up)) \<noteq> Done \<and>
         status (job (processJob env j up)) \<noteq> Error \<and>
         outputPath (job (processJob env j up)) = None"
    using observed_stop[of c env j up] by blast
next
  assume "cancelled (job (processJob env j up)) \<and> \<not> cancelDuring env PackStage"
  then have "observedLast (processJob env j up)"
    using processJob_complete[of env j up] by blast
  then show "\<exists>pre c'. trace (processJob env j up) = pre @ [Checked c' True]"
    by (simp add: observedLast_def)
next
  assume a: "called env j up s = Some (b, None)"
  show "nextRead (afterStage s (trace (processJob env j up))) =
        map_option (\<lambda>k. (k, b \<or> cancelDuring env s)) (checkpointAfter s)"
  proof (cases s)
    case ConvertStage
    with a show ?thesis by (simp add: convert_returns)
  next
    case ParseStage
    with a show ?thesis by (simp add: parse_returns)
  next
    case TranslateStage
    with a show ?thesis by (simp add: translate_returns)
  next
    case QaStage
    with a show ?thesis by (simp add: qa_returns)
  next
    case PackStage
    with a show ?thesis by (simp add: pack_returns)
  qed
next
  assume a: "called env j up s = Some (b, Some e)"
  show "nextRead (afterStage s (trace (processJob env j up))) = Some (InCatch, b \<or> cancelDuring env s)"
  proof (cases s)
    case ConvertStage
    with a show ?thesis by (simp add: convert_throws)
  next
    case ParseStage
    with a show ?thesis by (simp add: parse_throws)
  next
    case TranslateStage
    with a show ?thesis by (simp add: translate_throws)
  next
    case QaStage
    with a show ?thesis by (simp add: qa_throws)
  next
    case PackStage
    with a show ?thesis by (simp add: pack_throws)
  qed
next
  assume a: "called env j up PackStage = Some (b, None)"
  then show "status (job (processJob env j up)) = Done"
    "outputPath (job (processJob env j up)) = Some (outputPathOf env j)"
    "cancelled (job (processJob env j up)) = cancelDuring env PackStage"
    by (simp_all add: pack_returns)
qed


theorem cancellation_checkpoints_witness:
  "Checked AfterParsing True \<in> set (trace (processJob cancelWhileParsing docxJob ''up.docx'')) \<and>
   status docxJob \<noteq> Done \<and> status docxJob \<noteq> Error \<and> outputPath docxJob = None \<and>
   cancelled (job (processJob cancelWhileParsing docxJob ''up.docx'')) \<and>
   \<not> cancelDuring cancelWhileParsing PackStage \<and>
   (\<exists>pre. trace (processJob cancelWhileParsing docxJob ''up.docx'') = pre @ [Checked AfterParsing True]) \<and>
   status (job (processJob cancelWhileParsing docxJob ''up.docx'')) \<noteq> Done \<and>
   status (job (processJob cancelWhileParsing docxJob ''up.docx'')) \<noteq> Error \<and>
   outputPath (job (processJob cancelWhileParsing docxJob ''up.docx'')) = None \<and>
   called (cancelledDuring ConvertStage exampleServer) pdfJob ''up.pdf'' ConvertStage = Some (False, None) \<and>
   nextRead (afterStage ConvertStage
     (trace (processJob (cancelledDuring ConvertStage exampleServer) pdfJob ''up.pdf''))) =
     Some (AfterConversion, True) \<and>
   called exampleServer (pdfJob\<lparr>cancelled := True\<rparr>) ''up.pdf'' ConvertStage = Some (True, None) \<and>
   nextRead (afterStage ConvertStage
     (trace (processJob exampleServer (pdfJob\<lparr>cancelled := True\<rparr>) ''up.pdf''))) =
     Some (AfterConversion, True) \<and>
   called (cancelledDuring ParseStage exampleServer) docxJob ''up.docx'' ParseStage = Some (False, None) \<and>
   nextRead (afterStage ParseStage
     (trace (processJob (cancelledDuring ParseStage exampleServer) docxJob ''up.docx''))) =
     Some (AfterParsing, True) \<and>
   called (cancelledDuring TranslateStage exampleServer) docxJob ''up.docx'' TranslateStage =
     Some (False, None) \<and>
   nextRead (afterStage TranslateStage
     (trace (processJob (cancelledDuring TranslateStage exampleServer) docxJob ''up.docx''))) =
     Some (AfterTranslation, True) \<and>
   called (cancelledDuring QaStage exampleServer) docxJob ''up.docx'' QaStage = Some (False, None) \<and>
   nextRead (afterStage QaStage
     (trace (processJob (cancelledDuring QaStage exampleServer) docxJob ''up.docx''))) =
     Some (AfterQa, True) \<and>
   called exampleServer docxJob ''up.docx'' TranslateStage = Some (False, None) \<and>
   nextRead (afterStage TranslateStage (trace (processJob exampleServer docxJob ''up.docx''))) =
     Some (AfterTranslation, False) \<and>
   called (cancelledDuring PackStage (failingAt PackStage (JsError ''EACCES''))) docxJob ''up.docx''
     PackStage = Some (False, Some (JsError ''EACCES'')) \<and>
   nextRead (afterStage PackStage
     (trace (processJob (cancelledDuring PackStage (failingAt PackStage (JsError ''EACCES'')))
        docxJob ''up.docx''))) = Some (InCatch, True) \<and>
   called (cancelledDuring PackStage exampleServer) docxJob ''up.docx'' PackStage = Some (False, None) \<and>
   nextRead (afterStage PackStage
     (trace (processJob (cancelledDuring PackStage exampleServer) docxJob ''up.docx''))) = None \<and>
   status (job (processJob (cancelledDuring PackStage exampleServer) docxJob ''up.docx'')) = Done \<and>
   cancelled (job (processJob (cancelledDuring PackStage exampleServer) docxJob ''up.docx''))"
proof -
  have h1: "Checked AfterParsing True \<in> set (trace (processJob cancelWhileParsing docxJob ''up.docx''))"
    by code_simp
  have h2: "cancelled (job (processJob cancelWhileParsing docxJob ''up.docx''))"
    by code_simp
  have h3: "\<not> cancelDuring cancelWhileParsing PackStage"
    by (simp add: cancelWhileParsing_def)
  from cancellation_checkpoints[of AfterParsing cancelWhileParsing docxJob "''up.docx''"]
       h1 h2 h3 docxJob_fresh
  have old: "(\<exists>pre. trace (processJob cancelWhileParsing docxJob ''up.docx'') = pre @ [Checked AfterParsing True]) \<and>
     status (job (processJob cancelWhileParsing docxJob ''up.docx'')) \<noteq> Done \<and>
     status (job (processJob cancelWhileParsing docxJob ''up.docx'')) \<noteq> Error \<and>
     outputPath (job (processJob cancelWhileParsing docxJob ''up.docx'')) = None"
    by blast
  have cd: "cancelDuring (cancelledDuring s env) t = (t = s)" for s t and env :: "(nat, nat) server_env"
    by (simp add: cancelledDuring_def)
  have nd: "cancelDuring exampleServer t = False" for t
    by (simp add: exampleServer_def)
  have c1: "called (cancelledDuring ConvertStage exampleServer) pdfJob ''up.pdf'' ConvertStage =
      Some (False, None)"
    by code_simp
  from cancellation_checkpoints[where env = "cancelledDuring ConvertStage exampleServer" and j = pdfJob
      and up = "''up.pdf''" and s = ConvertStage and b = False] c1
  have r1: "nextRead (afterStage ConvertStage
     (trace (processJob (cancelledDuring ConvertStage exampleServer) pdfJob ''up.pdf''))) =
     Some (AfterConversion, True)"
    by (simp add: cd)
  have c0: "called exampleServer (pdfJob\<lparr>cancelled := True\<rparr>) ''up.pdf'' ConvertStage = Some (True, None)"
    by code_simp
  from cancellation_checkpoints[where env = exampleServer and j = "pdfJob\<lparr>cancelled := True\<rparr>"
      and up = "''up.pdf''" and s = ConvertStage and b = True] c0
  have r0: "nextRead (afterStage ConvertStage
     (trace (processJob exampleServer (pdfJob\<lparr>cancelled := True\<rparr>) ''up.pdf''))) =
     Some (AfterConversion, True)"
    by simp
  have c2: "called (cancelledDuring ParseStage exampleServer) docxJob ''up.docx'' ParseStage =
      Some (False, None)"
    by code_simp
  from cancellation_checkpoints[where env = "cancelledDuring ParseStage exampleServer" and j = docxJob
      and up = "''up.docx''" and s = ParseStage and b = False] c2
  have r2: "nextRead (afterStage ParseStage
     (trace (processJob (cancelledDuring ParseStage exampleServer) docxJob ''up.docx''))) =
     Some (AfterParsing, True)"
    by (simp add: cd)
  have c3: "called (cancelledDuring TranslateStage exampleServer) docxJob ''up.docx'' TranslateStage =
      Some (False, None)"
    by code_simp
  from cancellation_checkpoints[where env = "cancelledDuring TranslateStage exampleServer" and j = docxJob
      and up = "''up.docx''" and s = TranslateStage and b = False] c3
  have r3: "nextRead (afterStage TranslateStage
     (trace (processJob (cancelledDuring TranslateStage exampleServer) docxJob ''up.docx''))) =
     Some (AfterTranslation, True)"
    by (simp add: cd)
  have c4: "called (cancelledDuring QaStage exampleServer) docxJob ''up.docx'' QaStage =
      Some (False, None)"
    by code_simp
  from cancellation_checkpoints[where env = "cancelledDuring QaStage exampleServer" and j = docxJob
      and up = "''up.docx''" and s = QaStage and b = False] c4
  have r4: "nextRead (afterStage QaStage
     (trace (processJob (cancelledDuring QaStage exampleServer) docxJob ''up.docx''))) =
     Some (AfterQa, True)"
    by (simp add: cd)
  have c5: "called exampleServer docxJob ''up.docx'' TranslateStage = Some (False, None)"
    by code_simp
  from cancellation_checkpoints[where env = exampleServer and j = docxJob
      and up = "''up.docx''" and s = TranslateStage and b = False] c5
  have r5: "nextRead (afterStage TranslateStage (trace (processJob exampleServer docxJob ''up.docx''))) =
     Some (AfterTranslation, False)"
    by (simp add: nd)
  have c6: "called (cancelledDuring PackStage (failingAt PackStage (JsError ''EACCES''))) docxJob ''up.docx''
     PackStage = Some (False, Some (JsError ''EACCES''))"
    by code_simp
  from cancellation_checkpoints[where env = "cancelledDuring PackStage (failingAt PackStage (JsError ''EACCES''))"
      and j = docxJob and up = "''up.docx''" and s = PackStage and b = False and e = "JsError ''EACCES''"] c6
  have r6: "nextRead (afterStage PackStage
     (trace (processJob (cancelledDuring PackStage (failingAt PackStage (JsError ''EACCES'')))
        docxJob ''up.docx''))) = Some (InCatch, True)"
    by (simp add: cd)
  have c7: "called (cancelledDuring PackStage exampleServer) docxJob ''up.docx'' PackStage =
      Some (False, None)"
    by code_simp
  from cancellation_checkpoints[where env = "cancelledDuring PackStage exampleServer" and j = docxJob
      and up = "''up.docx''" and s = PackStage and b = False] c7
  have r7: "nextRead (afterStage PackStage
     (trace (processJob (cancelledDuring PackStage exampleServer) docxJob ''up.docx''))) = None \<and>
   status (job (processJob (cancelledDuring PackStage exampleServer) docxJob ''up.docx'')) = Done \<and>
   cancelled (job (processJob (cancelledDuring PackStage exampleServer) docxJob ''up.docx''))"
    by (simp add: cd)
  from h1 docxJob_fresh h2 h3 old c1 r1 c0 r0 c2 r2 c3 r3 c4 r4 c5 r5 c6 r6 c7 r7 show ?thesis
    by blast
qed

text \<open>
  C5, as the claim has it, fails at the boundary after packing, where \<open>processJob\<close> does not
  read the flag. A cancellation request arrives while the output is packed: the flag is
  set, it is read at no checkpoint after that, the output file is written and the job
  becomes done with its output path set.
\<close>

theorem cancellation_while_packing_counterexample:
  "cancelDuring cancelWhilePacking PackStage \<and>
   cancelled (job (processJob cancelWhilePacking docxJob ''up.docx'')) \<and>
   status (job (processJob cancelWhilePacking docxJob ''up.docx'')) = Done \<and>
   outputPath (job (processJob cancelWhilePacking docxJob ''up.docx'')) =
     Some ''output/report-translated.docx'' \<and>
   filter (\<lambda>e. case e of Checked c b \<Rightarrow> True | _ \<Rightarrow> False)
     (trace (processJob cancelWhilePacking docxJob ''up.docx'')) =
     [Checked AfterParsing False, Checked AfterTranslation False, Checked AfterQa False]"
  by code_simp







text \<open>
  The translation service rejects with \<^verbatim>\<open>undefined\<close> and no cancellation request arrives: the
  job is not made failed. It stays in the status of translation, with no error message
  and no finishing time, and the promise of \<open>processJob\<close> is rejected.
\<close>

lemma rejection_with_nothing:
  "called (failingAt TranslateStage JsNullish) docxJob ''up.docx'' TranslateStage =
     Some (False, Some JsNullish) \<and>
   \<not> cancelled (job (processJob (failingAt TranslateStage JsNullish) docxJob ''up.docx'')) \<and>
   status (job (processJob (failingAt TranslateStage JsNullish) docxJob ''up.docx'')) = Translating \<and>
   errorMessage (job (processJob (failingAt TranslateStage JsNullish) docxJob ''up.docx'')) = None \<and>
   finishedAt (job (processJob (failingAt TranslateStage JsNullish) docxJob ''up.docx'')) = None \<and>
   last (trace (processJob (failingAt TranslateStage JsNullish) docxJob ''up.docx'')) = Rejected"
  by code_simp

text \<open>
  C9. A happy-path run: no stage fails and no cancellation request arrives before packing.
  Starting from a progress between 0 and 5 (a new job has 0), the values of
  \<^verbatim>\<open>job.progress\<close> along the run never decrease and stay between 0 and 100. The progress is 5
  when the conversion is called (for a PDF; a document is not converted), 15 when the
  parser is called and when the checkpoint after parsing is reached, 20 when translation
  and QA are called, 95 when \<^verbatim>\<open>writeDocx\<close> is called, and 100 when the run returns with the
  job done.
\<close>

theorem progress_on_the_happy_path:
  assumes wk: "wk = path_join env (WORK_DIR env) (uuidv4 env @ ''.docx'')"
    and out: "out = path_join env (OUTPUT_DIR env)
                (path_basename env (fileName j) (toLowerCase env (path_extname env (fileName j)))
                   @ ''-translated.docx'')"
    and pdf: "isPdf = (toLowerCase env (path_extname env (fileName j)) = ''.pdf'')"
    and nocancel: "\<not> cancelled j" "\<not> cancelDuring env ConvertStage" "\<not> cancelDuring env ParseStage"
      "\<not> cancelDuring env TranslateStage" "\<not> cancelDuring env QaStage"
    and conv: "if isPdf then convertPdfToDocx env up wk = None
               else fsThrows (docx env) (CopyFile up wk) = None"
    and parse: "parseDocx (docx env) wk = Inr parsed"
    and tr: "translateSegments env (usage j, costUSD j) (segments parsed) langs = (m1, Inr segs1)"
    and qa: "qaAndRetranslate env m1 segs1 langs = (m2, Inr segs2)"
    and wr: "thrown (writeDocx (docx env) (parsed\<lparr>segments := segs2\<rparr>) out) = None"
    and p0: "0 \<le> progress j" "progress j \<le> 5"
  shows "sorted (progressHistory (progress j) (trace (processJob env j up))) \<and>
         (\<forall>p \<in> set (progressHistory (progress j) (trace (processJob env j up))). 0 \<le> p \<and> p \<le> 100) \<and>
         progressAt (progress j) (trace (processJob env j up)) =
           (if isPdf then [(Invoked (ConvertPdfToDocx up wk), 5), (Checked AfterConversion False, 5)]
            else []) @
           [(Invoked (ParseDocx wk), 15), (Checked AfterParsing False, 15),
            (Invoked TranslateSegments, 20), (Checked AfterTranslation False, 20),
            (Invoked QaAndRetranslate, 20), (Checked AfterQa False, 20),
            (Invoked (WriteDocx out), 95)] \<and>
         status (job (processJob env j up)) = Done \<and>
         progress (job (processJob env j up)) = 100"
proof -
  have tr': "translateSegments env (usage j, costUSD j) (segments parsed) langs = (m1, Inr segs1)"
    by (rule tr)
  show ?thesis
  proof (cases isPdf)
    case True
    with pdf conv have e: "toLowerCase env (path_extname env (fileName j)) = ''.pdf''"
      and c: "convertPdfToDocx env up (path_join env (WORK_DIR env) (uuidv4 env @ ''.docx'')) = None"
      by (simp_all add: wk)
    show ?thesis
      using True nocancel parse tr qa wr p0 c
      unfolding wk out
      by (simp add: e processJob_def tryBlock_def step2_parse_def step3_translate_def step4_qa_def
          step5_pack_def Let_def awaitStage_def updateJob_def finishJob_def noPatch_def
          cleanup_def split: option.split)
  next
    case False
    with pdf conv have e: "toLowerCase env (path_extname env (fileName j)) \<noteq> ''.pdf''"
      and c: "fsThrows (docx env) (CopyFile up (path_join env (WORK_DIR env) (uuidv4 env @ ''.docx''))) = None"
      by (simp_all add: wk)
    show ?thesis
      using False nocancel parse tr qa wr p0 c
      unfolding wk out
      by (simp add: e processJob_def tryBlock_def step2_parse_def step3_translate_def step4_qa_def
          step5_pack_def Let_def awaitStage_def updateJob_def finishJob_def noPatch_def
          cleanup_def split: option.split)
  qed
qed

lemma exampleEnv_parse_any: "parseDocx exampleEnv path = Inr exampleParsed"
  by (simp add: parseDocx_def exampleEnv_def exampleZip_def exampleParsed_def fox_extract)

theorem progress_on_the_happy_path_witness:
  "\<not> cancelled pdfJob \<and> progress pdfJob = 0 \<and>
   convertPdfToDocx exampleServer ''up.pdf'' ''work/uuid.docx'' = None \<and>
   parseDocx (docx exampleServer) ''work/uuid.docx'' = Inr exampleParsed \<and>
   sorted (progressHistory 0 (trace (processJob exampleServer pdfJob ''up.pdf''))) \<and>
   progressHistory 0 (trace (processJob exampleServer pdfJob ''up.pdf'')) =
     [0, 0, 5, 15, 15, 20, 20, 20, 95, 95, 100, 100] \<and>
   progressAt 0 (trace (processJob exampleServer pdfJob ''up.pdf'')) =
     [(Invoked (ConvertPdfToDocx ''up.pdf'' ''work/uuid.docx''), 5), (Checked AfterConversion False, 5),
      (Invoked (ParseDocx ''work/uuid.docx''), 15), (Checked AfterParsing False, 15),
      (Invoked TranslateSegments, 20), (Checked AfterTranslation False, 20),
      (Invoked QaAndRetranslate, 20), (Checked AfterQa False, 20),
      (Invoked (WriteDocx ''output/report-translated.docx''), 95)] \<and>
   status (job (processJob exampleServer pdfJob ''up.pdf'')) = Done \<and>
   progress (job (processJob exampleServer pdfJob ''up.pdf'')) = 100 \<and>
   \<not> cancelled docxJob \<and> progress docxJob = 0 \<and>
   fsThrows (docx exampleServer) (CopyFile ''up.docx'' ''work/uuid.docx'') = None \<and>
   sorted (progressHistory 0 (trace (processJob exampleServer docxJob ''up.docx''))) \<and>
   progressAt 0 (trace (processJob exampleServer docxJob ''up.docx'')) =
     [(Invoked (ParseDocx ''work/uuid.docx''), 15), (Checked AfterParsing False, 15),
      (Invoked TranslateSegments, 20), (Checked AfterTranslation False, 20),
      (Invoked QaAndRetranslate, 20), (Checked AfterQa False, 20),
      (Invoked (WriteDocx ''output/report-translated.docx''), 95)] \<and>
   status (job (processJob exampleServer docxJob ''up.docx'')) = Done \<and>
   progress (job (processJob exampleServer docxJob ''up.docx'')) = 100"
proof -
  have wk: "''work/uuid.docx'' = path_join exampleServer (WORK_DIR exampleServer) (uuidv4 exampleServer @ ''.docx'')"
    by (simp add: exampleServer_def)
  have out: "''output/report-translated.docx'' = path_join exampleServer (OUTPUT_DIR exampleServer)
       (path_basename exampleServer (fileName pdfJob)
          (toLowerCase exampleServer (path_extname exampleServer (fileName pdfJob))) @ ''-translated.docx'')"
    by (simp add: exampleServer_def)
  have pdf: "True = (toLowerCase exampleServer (path_extname exampleServer (fileName pdfJob)) = ''.pdf'')"
    by (simp add: exampleServer_def pdfJob_def createJob_def)
  have nc: "\<not> cancelled pdfJob"
    by (simp add: pdfJob_def createJob_def)
  have nd: "\<not> cancelDuring exampleServer s" for s
    by (simp add: exampleServer_def)
  have conv: "convertPdfToDocx exampleServer ''up.pdf'' ''work/uuid.docx'' = None"
    by (simp add: exampleServer_def)
  then have conv': "if True then convertPdfToDocx exampleServer ''up.pdf'' ''work/uuid.docx'' = None
     else fsThrows (docx exampleServer) (CopyFile ''up.pdf'' ''work/uuid.docx'') = None"
    by simp
  have parse: "parseDocx (docx exampleServer) ''work/uuid.docx'' = Inr exampleParsed"
    by (simp add: exampleServer_def exampleEnv_parse_any)
  have tr: "translateSegments exampleServer (usage pdfJob, costUSD pdfJob) (segments exampleParsed) langs
      = ((10, 1), Inr [foxSegment (Some ''X'')])"
    by (simp add: exampleServer_def pdfJob_def createJob_def exampleParsed_def foxSegment_def)
  have qa: "qaAndRetranslate exampleServer (10, 1) [foxSegment (Some ''X'')] langs
      = ((10, 1), Inr [foxSegment (Some ''X'')])"
    by (simp add: exampleServer_def)
  have wr: "thrown (writeDocx (docx exampleServer) (exampleParsed\<lparr>segments := [foxSegment (Some ''X'')]\<rparr>)
       ''output/report-translated.docx'') = None"
    by (simp add: exampleServer_def writeDocx_def exampleEnv_def)
  have p0: "progress pdfJob = 0"
    by (simp add: pdfJob_def createJob_def)
  have p1: "0 \<le> progress pdfJob" "progress pdfJob \<le> 5"
    by (simp_all add: p0)
  have h: "progressHistory 0 (trace (processJob exampleServer pdfJob ''up.pdf'')) =
     [0, 0, 5, 15, 15, 20, 20, 20, 95, 95, 100, 100]"
    by code_simp
  from progress_on_the_happy_path[OF wk out pdf nc nd nd nd nd conv' parse tr qa wr p1]
  have "sorted (progressHistory 0 (trace (processJob exampleServer pdfJob ''up.pdf''))) \<and>
     progressAt 0 (trace (processJob exampleServer pdfJob ''up.pdf'')) =
     [(Invoked (ConvertPdfToDocx ''up.pdf'' ''work/uuid.docx''), 5), (Checked AfterConversion False, 5),
      (Invoked (ParseDocx ''work/uuid.docx''), 15), (Checked AfterParsing False, 15),
      (Invoked TranslateSegments, 20), (Checked AfterTranslation False, 20),
      (Invoked QaAndRetranslate, 20), (Checked AfterQa False, 20),
      (Invoked (WriteDocx ''output/report-translated.docx''), 95)] \<and>
     status (job (processJob exampleServer pdfJob ''up.pdf'')) = Done \<and>
     progress (job (processJob exampleServer pdfJob ''up.pdf'')) = 100"
    by (simp add: p0)
  note pdfRun = this
  have out2: "''output/report-translated.docx'' = path_join exampleServer (OUTPUT_DIR exampleServer)
       (path_basename exampleServer (fileName docxJob)
          (toLowerCase exampleServer (path_extname exampleServer (fileName docxJob))) @ ''-translated.docx'')"
    by (simp add: exampleServer_def)
  have docx: "False = (toLowerCase exampleServer (path_extname exampleServer (fileName docxJob)) = ''.pdf'')"
    by (simp add: exampleServer_def docxJob_def createJob_def)
  have nc2: "\<not> cancelled docxJob"
    by (simp add: docxJob_def createJob_def)
  have copy: "fsThrows (docx exampleServer) (CopyFile ''up.docx'' ''work/uuid.docx'') = None"
    by (simp add: exampleServer_def exampleEnv_def)
  then have copy': "if False then convertPdfToDocx exampleServer ''up.docx'' ''work/uuid.docx'' = None
     else fsThrows (docx exampleServer) (CopyFile ''up.docx'' ''work/uuid.docx'') = None"
    by simp
  have tr2: "translateSegments exampleServer (usage docxJob, costUSD docxJob) (segments exampleParsed) langs
      = ((10, 1), Inr [foxSegment (Some ''X'')])"
    by (simp add: exampleServer_def docxJob_def createJob_def exampleParsed_def foxSegment_def)
  have q0: "progress docxJob = 0"
    by (simp add: docxJob_def createJob_def)
  have q1: "0 \<le> progress docxJob" "progress docxJob \<le> 5"
    by (simp_all add: q0)
  from progress_on_the_happy_path[OF wk out2 docx nc2 nd nd nd nd copy' parse tr2 qa wr q1]
  have "sorted (progressHistory 0 (trace (processJob exampleServer docxJob ''up.docx''))) \<and>
     progressAt 0 (trace (processJob exampleServer docxJob ''up.docx'')) =
     [(Invoked (ParseDocx ''work/uuid.docx''), 15), (Checked AfterParsing False, 15),
      (Invoked TranslateSegments, 20), (Checked AfterTranslation False, 20),
      (Invoked QaAndRetranslate, 20), (Checked AfterQa False, 20),
      (Invoked (WriteDocx ''output/report-translated.docx''), 95)] \<and>
     status (job (processJob exampleServer docxJob ''up.docx'')) = Done \<and>
     progress (job (processJob exampleServer docxJob ''up.docx'')) = 100"
    by (simp add: q0)
  with pdfRun nc p0 conv parse h nc2 q0 copy show ?thesis
    by blast
qed

end
